theory Spec2Isabelle
  imports Complex_Main "HOL-Library.AList" "HOL-Library.Sublist"
begin

section \<open>Dedup gate: \<open>WebhookDedupeStore\<close>\<close>

text \<open>
  The store keeps a \<open>Map\<close> from key to completion time (\<open>processed\<close>), a \<open>Set\<close> of
  keys being processed (\<open>inProgress\<close>) and the window length in milliseconds. Times are
  the integers \<open>Date.now()\<close> returns; an operation that reads the clock takes the reading
  as its argument \<open>now\<close>. \<open>tryAcquire\<close> and \<open>release\<close> read no clock.
\<close>

record dedupe_store =
  processed :: "string \<rightharpoonup> int"
  inProgress :: "string set"
  windowMs :: int

text \<open>
  The constructor's parameter has the default \<open>5 * 60 * 1000\<close>, used when the argument is
  missing (\<open>None\<close>). The timer it starts is the operation \<open>cleanup\<close>, run every 60
  seconds.
\<close>

definition WebhookDedupeStore :: "int option \<Rightarrow> dedupe_store" where
  "WebhookDedupeStore w =
     \<lparr>processed = Map.empty, inProgress = {},
      windowMs = (case w of None \<Rightarrow> 5 * 60 * 1000 | Some ms \<Rightarrow> ms)\<rparr>"

text \<open>The template string \<open>`${topic}:${resourceId}`\<close>.\<close>

definition dedupe_key :: "string \<Rightarrow> string \<Rightarrow> string" where
  "dedupe_key topic resourceId = topic @ '':'' @ resourceId"

definition tryAcquire :: "dedupe_store \<Rightarrow> string \<Rightarrow> string \<Rightarrow> bool \<times> dedupe_store" where
  "tryAcquire s topic resourceId =
     (let key = dedupe_key topic resourceId in
      if key \<in> inProgress s then (False, s)
      else if processed s key \<noteq> None then (False, s)
      else (True, s\<lparr>inProgress := insert key (inProgress s)\<rparr>))"

definition complete :: "dedupe_store \<Rightarrow> string \<Rightarrow> string \<Rightarrow> int \<Rightarrow> dedupe_store" where
  "complete s topic resourceId now =
     (let key = dedupe_key topic resourceId in
      s\<lparr>inProgress := inProgress s - {key}, processed := (processed s)(key \<mapsto> now)\<rparr>)"

definition release :: "dedupe_store \<Rightarrow> string \<Rightarrow> string \<Rightarrow> dedupe_store" where
  "release s topic resourceId =
     (let key = dedupe_key topic resourceId in s\<lparr>inProgress := inProgress s - {key}\<rparr>)"

definition cleanup :: "dedupe_store \<Rightarrow> int \<Rightarrow> dedupe_store" where
  "cleanup s now =
     (let cutoff = now - windowMs s in
      s\<lparr>processed := (\<lambda>key. case processed s key of
                                 None \<Rightarrow> None
                               | Some timestamp \<Rightarrow> if timestamp < cutoff then None else Some timestamp)\<rparr>)"

text \<open>
  A history of calls on one store. \<open>active\<close> is a ghost counter kept beside the store:
  per key, the number of tasks admitted (a \<open>tryAcquire\<close> that returned \<open>true\<close>) and not yet
  ended by a \<open>complete\<close> or \<open>release\<close> of that key.
\<close>

datatype dedupe_op =
    TryAcquire string string
  | Complete string string int
  | Release string string
  | Cleanup int

fun dedupe_step :: "dedupe_store \<times> (string \<Rightarrow> nat) \<Rightarrow> dedupe_op \<Rightarrow> dedupe_store \<times> (string \<Rightarrow> nat)" where
  "dedupe_step (s, active) (TryAcquire t r) =
     (let (ok, s') = tryAcquire s t r in
      (s', if ok then active(dedupe_key t r := Suc (active (dedupe_key t r))) else active))"
| "dedupe_step (s, active) (Complete t r now) =
     (complete s t r now, active(dedupe_key t r := active (dedupe_key t r) - 1))"
| "dedupe_step (s, active) (Release t r) =
     (release s t r, active(dedupe_key t r := active (dedupe_key t r) - 1))"
| "dedupe_step (s, active) (Cleanup now) = (cleanup s now, active)"

definition dedupe_run :: "dedupe_store \<times> (string \<Rightarrow> nat) \<Rightarrow> dedupe_op list \<Rightarrow> dedupe_store \<times> (string \<Rightarrow> nat)" where
  "dedupe_run = foldl dedupe_step"

fun finishes :: "string \<Rightarrow> dedupe_op \<Rightarrow> bool" where
  "finishes key (Complete t r now) = (dedupe_key t r = key)"
| "finishes key (Release t r) = (dedupe_key t r = key)"
| "finishes key _ = False"

text \<open>The invariant of the store and its ghost counter.\<close>

definition dedupe_inv :: "dedupe_store \<times> (string \<Rightarrow> nat) \<Rightarrow> bool" where
  "dedupe_inv p = (case p of (s, active) \<Rightarrow>
     inProgress s \<inter> dom (processed s) = {} \<and>
     (\<forall>k. active k = (if k \<in> inProgress s then 1 else 0)))"

section \<open>Circuit breaker: \<open>CircuitBreakerV2\<close>\<close>

text \<open>
  Times and thresholds are integers; counters are naturals. Every method that calls
  \<open>Date.now()\<close> takes the reading as \<open>now\<close> (one reading per synchronous method call).
  Logging and event emission do not touch the breaker's fields and are left out.
\<close>

datatype circuit_state = CLOSED | OPEN | HALF_OPEN

text \<open>The fields of a thrown error that the breaker reads.\<close>

record js_error =
  code :: "string option"
  message :: "string option"

text \<open>An element of \<open>metrics.callsInWindow\<close>; \<open>error\<close> is \<open>error?.message\<close>.\<close>

record call_record =
  timestamp :: int
  success :: bool
  latency :: int
  error :: "string option"

record breaker_metrics =
  totalCalls :: nat
  successfulCalls :: nat
  failedCalls :: nat
  rejectedCalls :: nat
  timeouts :: nat
  latencies :: "int list"
  callsInWindow :: "call_record list"

record circuit_breaker =
  name :: string
  failureThreshold :: int
  successThreshold :: int
  timeout :: int
  volumeThreshold :: int
  windowDuration :: int
  isFailure :: "js_error \<Rightarrow> bool"
  state :: circuit_state
  failures :: nat
  successes :: nat
  consecutiveSuccesses :: nat
  nextAttemptTime :: "int option"
  lastFailureTime :: "int option"
  lastSuccessTime :: "int option"
  metrics :: breaker_metrics

text \<open>The constructor's \<open>options\<close>: a missing property is \<open>None\<close>.\<close>

record breaker_options =
  opt_name :: "string option"
  opt_failureThreshold :: "int option"
  opt_successThreshold :: "int option"
  opt_timeout :: "int option"
  opt_volumeThreshold :: "int option"
  opt_windowDuration :: "int option"
  opt_isFailure :: "(js_error \<Rightarrow> bool) option"

text \<open>\<open>options.x || d\<close> on a number: \<open>undefined\<close> and \<open>0\<close> are falsy.\<close>

definition num_or :: "int option \<Rightarrow> int \<Rightarrow> int" where
  "num_or v d = (case v of None \<Rightarrow> d | Some n \<Rightarrow> if n = 0 then d else n)"

definition str_or :: "string option \<Rightarrow> string \<Rightarrow> string" where
  "str_or v d = (case v of None \<Rightarrow> d | Some s \<Rightarrow> if s = [] then d else s)"

definition CircuitBreakerV2 :: "breaker_options \<Rightarrow> circuit_breaker" where
  "CircuitBreakerV2 options =
     \<lparr>name = str_or (opt_name options) ''default'',
      failureThreshold = num_or (opt_failureThreshold options) 5,
      successThreshold = num_or (opt_successThreshold options) 2,
      timeout = num_or (opt_timeout options) 30000,
      volumeThreshold = num_or (opt_volumeThreshold options) 5,
      windowDuration = num_or (opt_windowDuration options) 60000,
      isFailure = (case opt_isFailure options of None \<Rightarrow> (\<lambda>err. True) | Some f \<Rightarrow> f),
      state = CLOSED,
      failures = 0,
      successes = 0,
      consecutiveSuccesses = 0,
      nextAttemptTime = None,
      lastFailureTime = None,
      lastSuccessTime = None,
      metrics = \<lparr>totalCalls = 0, successfulCalls = 0, failedCalls = 0, rejectedCalls = 0,
                 timeouts = 0, latencies = [], callsInWindow = []\<rparr>\<rparr>"

text \<open>\<open>s.includes(sub)\<close>.\<close>

definition includes_str :: "string \<Rightarrow> string \<Rightarrow> bool" where
  "includes_str s sub = sublist sub s"

text \<open>\<open>arr.slice(-n)\<close> for \<open>n > 0\<close>: the last \<open>n\<close> elements.\<close>

definition slice_last :: "nat \<Rightarrow> 'a list \<Rightarrow> 'a list" where
  "slice_last n xs = drop (length xs - n) xs"

definition cleanupMetrics :: "circuit_breaker \<Rightarrow> int \<Rightarrow> circuit_breaker" where
  "cleanupMetrics b now =
     (let cutoff = now - windowDuration b;
          m = metrics b;
          m1 = m\<lparr>callsInWindow := filter (\<lambda>c. timestamp c > cutoff) (callsInWindow m)\<rparr>;
          m2 = (if length (latencies m1) > 100
                then m1\<lparr>latencies := slice_last 100 (latencies m1)\<rparr> else m1)
      in b\<lparr>metrics := m2\<rparr>)"

definition transitionTo :: "circuit_breaker \<Rightarrow> circuit_state \<Rightarrow> int \<Rightarrow> circuit_breaker" where
  "transitionTo b newState now =
     (let b1 = b\<lparr>state := newState\<rparr> in
      case newState of
        OPEN \<Rightarrow> b1\<lparr>nextAttemptTime := Some (now + timeout b1)\<rparr>
      | HALF_OPEN \<Rightarrow> b1\<lparr>consecutiveSuccesses := 0\<rparr>
      | CLOSED \<Rightarrow> b1\<lparr>failures := 0, consecutiveSuccesses := 0\<rparr>)"

text \<open>
  \<open>Date.now() >= this.nextAttemptTime\<close>: a \<open>null\<close> on the right converts to \<open>0\<close>.
\<close>

definition canExecute :: "circuit_breaker \<Rightarrow> int \<Rightarrow> bool \<times> circuit_breaker" where
  "canExecute b now =
     (if state b = CLOSED then (True, b)
      else if state b = OPEN then
        (if now \<ge> (case nextAttemptTime b of None \<Rightarrow> 0 | Some t \<Rightarrow> t)
         then (True, transitionTo b HALF_OPEN now)
         else (False, b))
      else (True, b))"

definition shouldOpen :: "circuit_breaker \<Rightarrow> int \<Rightarrow> bool \<times> circuit_breaker" where
  "shouldOpen b now =
     (let b1 = cleanupMetrics b now;
          calls = int (length (callsInWindow (metrics b1)))
      in if calls < volumeThreshold b1 then (False, b1)
         else (int (failures b1) \<ge> failureThreshold b1, b1))"

definition recordSuccess :: "circuit_breaker \<Rightarrow> int \<Rightarrow> int \<Rightarrow> circuit_breaker" where
  "recordSuccess b lat now =
     (let m = metrics b;
          b1 = b\<lparr>successes := successes b + 1,
                 consecutiveSuccesses := consecutiveSuccesses b + 1,
                 lastSuccessTime := Some now,
                 metrics := m\<lparr>totalCalls := totalCalls m + 1,
                              successfulCalls := successfulCalls m + 1,
                              latencies := latencies m @ [lat],
                              callsInWindow := callsInWindow m @
                                [\<lparr>timestamp = now, success = True, latency = lat, error = None\<rparr>]\<rparr>\<rparr>
      in if state b1 = HALF_OPEN then
           (if int (consecutiveSuccesses b1) \<ge> successThreshold b1
            then transitionTo b1 CLOSED now else b1)
         else if state b1 = CLOSED then b1\<lparr>failures := 0\<rparr>
         else b1)"

definition isTimeout :: "js_error option \<Rightarrow> bool" where
  "isTimeout err =
     (case err of
        None \<Rightarrow> False
      | Some e \<Rightarrow> code e = Some ''ETIMEDOUT'' \<or>
                  (case message e of None \<Rightarrow> False | Some msg \<Rightarrow> includes_str msg ''timeout''))"

definition recordFailure :: "circuit_breaker \<Rightarrow> js_error option \<Rightarrow> int \<Rightarrow> int \<Rightarrow> circuit_breaker" where
  "recordFailure b err lat now =
     (let m = metrics b;
          m1 = m\<lparr>totalCalls := totalCalls m + 1,
                 failedCalls := failedCalls m + 1,
                 latencies := latencies m @ [lat],
                 callsInWindow := callsInWindow m @
                   [\<lparr>timestamp = now, success = False, latency = lat,
                     error = (case err of None \<Rightarrow> None | Some e \<Rightarrow> message e)\<rparr>]\<rparr>;
          m2 = (if isTimeout err then m1\<lparr>timeouts := timeouts m1 + 1\<rparr> else m1);
          b1 = b\<lparr>failures := failures b + 1,
                 consecutiveSuccesses := 0,
                 lastFailureTime := Some now,
                 metrics := m2\<rparr>
      in if state b1 = HALF_OPEN then transitionTo b1 OPEN now
         else if state b1 = CLOSED then
           (case shouldOpen b1 now of
              (True, b2) \<Rightarrow> transitionTo b2 OPEN now
            | (False, b2) \<Rightarrow> b2)
         else b1)"

definition recordRejection :: "circuit_breaker \<Rightarrow> circuit_breaker" where
  "recordRejection b = b\<lparr>metrics := (metrics b)\<lparr>rejectedCalls := rejectedCalls (metrics b) + 1\<rparr>\<rparr>"

text \<open>
  \<open>execute(fn, fallback)\<close>. The protected call \<open>fn\<close> acts on the dependency, whose state
  is \<open>'w\<close>: it returns a value (\<open>Inr\<close>) or throws (\<open>Inl\<close>) and leaves a new dependency
  state. \<open>start\<close> and \<open>finish\<close> are the clock readings before and after the awaited call;
  the call is one step, with no other use of the breaker in between. The result is the
  value returned or the error thrown to the caller, the breaker and the dependency.
\<close>

datatype ('a, 'w) fallback =
    FbNull
  | FbValue 'a
  | FbFunction "'w \<Rightarrow> (js_error + 'a) \<times> 'w"

datatype exec_error = CircuitOpenError string | Thrown js_error

definition execute ::
  "circuit_breaker \<Rightarrow> ('w \<Rightarrow> (js_error + 'a) \<times> 'w) \<Rightarrow> ('a, 'w) fallback \<Rightarrow> int \<Rightarrow> int \<Rightarrow> 'w
   \<Rightarrow> (exec_error + 'a) \<times> circuit_breaker \<times> 'w" where
  "execute b fn fb start finish w =
     (case canExecute b start of
        (False, b1) \<Rightarrow>
          (let b2 = recordRejection b1 in
           case fb of
             FbFunction f \<Rightarrow>
               (case f w of
                  (Inl e, w') \<Rightarrow> (Inl (Thrown e), b2, w')
                | (Inr v, w') \<Rightarrow> (Inr v, b2, w'))
           | FbValue v \<Rightarrow> (Inr v, b2, w)
           | FbNull \<Rightarrow> (Inl (CircuitOpenError (name b2)), b2, w))
      | (True, b1) \<Rightarrow>
          (case fn w of
             (Inr result, w') \<Rightarrow> (Inr result, recordSuccess b1 (finish - start) finish, w')
           | (Inl e, w') \<Rightarrow>
               (Inl (Thrown e),
                if isFailure b1 e then recordFailure b1 (Some e) (finish - start) finish
                else recordSuccess b1 (finish - start) finish,
                w')))"

definition forceState :: "circuit_breaker \<Rightarrow> circuit_state \<Rightarrow> int \<Rightarrow> circuit_breaker" where
  "forceState b st now =
     (let b1 = b\<lparr>state := st\<rparr> in
      if st = OPEN then b1\<lparr>nextAttemptTime := Some (now + timeout b1)\<rparr>
      else if st = CLOSED then b1\<lparr>failures := 0, consecutiveSuccesses := 0\<rparr>
      else b1)"

definition reset :: "circuit_breaker \<Rightarrow> circuit_breaker" where
  "reset b = b\<lparr>state := CLOSED, failures := 0, successes := 0, consecutiveSuccesses := 0,
               nextAttemptTime := None\<rparr>"

text \<open>
  The scenario used to exercise the breaker: \<open>failureThreshold = 3\<close>, \<open>volumeThreshold = 1\<close>,
  every other option left to its default, three failures recorded at times 1000, 2000
  and 3000, and a dependency that counts the calls it receives.
\<close>

definition scenario_options :: breaker_options where
  "scenario_options =
     \<lparr>opt_name = None, opt_failureThreshold = Some 3, opt_successThreshold = None,
      opt_timeout = None, opt_volumeThreshold = Some 1, opt_windowDuration = None,
      opt_isFailure = None\<rparr>"

definition scenario_open :: circuit_breaker where
  "scenario_open =
     recordFailure (recordFailure (recordFailure (CircuitBreakerV2 scenario_options)
       None 0 1000) None 0 2000) None 0 3000"

definition scenario_call :: "nat \<Rightarrow> (js_error + nat) \<times> nat" where
  "scenario_call w = (Inr 7, Suc w)"


section \<open>Lookup cache: \<open>BillerSearchCache\<close>\<close>

text \<open>
  The cache is a \<open>Map\<close> from key to entry. A \<open>Map\<close> iterates in insertion order, and
  \<open>_evictOne\<close> depends on that order when two entries have the same \<open>lastAccess\<close>, so the
  map is an association list in insertion order: \<open>AList.update\<close> replaces the value of a
  present key in place and appends a new key, as \<open>Map.prototype.set\<close> does, and
  \<open>this.cache.size\<close> is the length of the list. The entry's fields \<open>value\<close> and \<open>hits\<close> are
  called \<open>val\<close> and \<open>entryHits\<close> here (\<open>hits\<close> is also a field of \<open>stats\<close>). The periodic
  timer is the operation \<open>cache_cleanup\<close>, run at the times the timer fires.
\<close>

record 'v cache_entry =
  val :: 'v
  createdAt :: int
  expiresAt :: int
  lastAccess :: int
  entryHits :: nat

record cache_stats =
  hits :: nat
  misses :: nat
  sets :: nat
  evictions :: nat

record 'v search_cache =
  ttl :: int
  maxSize :: nat
  cache :: "(string \<times> 'v cache_entry) list"
  stats :: cache_stats

record cache_options =
  opt_ttl :: "int option"
  opt_maxSize :: "nat option"

definition BillerSearchCache :: "cache_options \<Rightarrow> 'v search_cache" where
  "BillerSearchCache options =
     \<lparr>ttl = num_or (opt_ttl options) (5 * 60 * 1000),
      maxSize = (case opt_maxSize options of None \<Rightarrow> 1000 | Some n \<Rightarrow> if n = 0 then 1000 else n),
      cache = [],
      stats = \<lparr>hits = 0, misses = 0, sets = 0, evictions = 0\<rparr>\<rparr>"

definition generateKey :: "string \<Rightarrow> string \<Rightarrow> string" where
  "generateKey type key = type @ '':'' @ key"

text \<open>\<open>get\<close> returns the cached value, or \<open>None\<close> for \<open>null\<close>.\<close>

definition cache_get :: "'v search_cache \<Rightarrow> string \<Rightarrow> string \<Rightarrow> int \<Rightarrow> 'v option \<times> 'v search_cache" where
  "cache_get c type key now =
     (let cacheKey = generateKey type key in
      case map_of (cache c) cacheKey of
        None \<Rightarrow> (None, c\<lparr>stats := (stats c)\<lparr>misses := misses (stats c) + 1\<rparr>\<rparr>)
      | Some entry \<Rightarrow>
          if now > expiresAt entry
          then (None, c\<lparr>cache := AList.delete cacheKey (cache c),
                         stats := (stats c)\<lparr>misses := misses (stats c) + 1\<rparr>\<rparr>)
          else (Some (val entry),
                c\<lparr>stats := (stats c)\<lparr>hits := hits (stats c) + 1\<rparr>,
                  cache := AList.update cacheKey
                             (entry\<lparr>entryHits := entryHits entry + 1, lastAccess := now\<rparr>) (cache c)\<rparr>))"

text \<open>
  The loop of \<open>_evictOne\<close>: the accumulator is \<open>(oldestKey, oldestAccess)\<close>, with \<open>None\<close>
  for \<open>null\<close> and for \<open>Infinity\<close>.
\<close>

fun evict_scan ::
  "(string \<times> 'v cache_entry) list \<Rightarrow> string option \<times> int option \<Rightarrow> string option \<times> int option" where
  "evict_scan [] acc = acc"
| "evict_scan ((key, entry) # rest) (oldestKey, oldestAccess) =
     (if (case oldestAccess of None \<Rightarrow> True | Some a \<Rightarrow> lastAccess entry < a)
      then evict_scan rest (Some key, Some (lastAccess entry))
      else evict_scan rest (oldestKey, oldestAccess))"

text \<open>\<open>if (oldestKey)\<close>: \<open>null\<close> and the empty string are falsy.\<close>

definition evictOne :: "'v search_cache \<Rightarrow> 'v search_cache" where
  "evictOne c =
     (case fst (evict_scan (cache c) (None, None)) of
        None \<Rightarrow> c
      | Some oldestKey \<Rightarrow>
          if oldestKey = [] then c
          else c\<lparr>cache := AList.delete oldestKey (cache c),
                 stats := (stats c)\<lparr>evictions := evictions (stats c) + 1\<rparr>\<rparr>)"

definition cache_set ::
  "'v search_cache \<Rightarrow> string \<Rightarrow> string \<Rightarrow> 'v \<Rightarrow> int option \<Rightarrow> int \<Rightarrow> 'v search_cache" where
  "cache_set c type key v customTtl now =
     (let cacheKey = generateKey type key;
          ttl' = num_or customTtl (ttl c);
          c1 = (if length (cache c) \<ge> maxSize c \<and> map_of (cache c) cacheKey = None
                then evictOne c else c)
      in c1\<lparr>cache := AList.update cacheKey
                 \<lparr>val = v, createdAt = now, expiresAt = now + ttl', lastAccess = now, entryHits = 0\<rparr>
                 (cache c1),
             stats := (stats c1)\<lparr>sets := sets (stats c1) + 1\<rparr>\<rparr>)"

definition invalidate :: "'v search_cache \<Rightarrow> string \<Rightarrow> string \<Rightarrow> bool \<times> 'v search_cache" where
  "invalidate c type key =
     (let cacheKey = generateKey type key in
      (map_of (cache c) cacheKey \<noteq> None, c\<lparr>cache := AList.delete cacheKey (cache c)\<rparr>))"

definition invalidateType :: "'v search_cache \<Rightarrow> string \<Rightarrow> nat \<times> 'v search_cache" where
  "invalidateType c type =
     (let pre = type @ '':'' in
      (length (filter (\<lambda>(key, entry). prefix pre key) (cache c)),
       c\<lparr>cache := filter (\<lambda>(key, entry). \<not> prefix pre key) (cache c)\<rparr>))"

definition clear :: "'v search_cache \<Rightarrow> 'v search_cache" where
  "clear c = c\<lparr>cache := []\<rparr>"

definition cache_cleanup :: "'v search_cache \<Rightarrow> int \<Rightarrow> 'v search_cache" where
  "cache_cleanup c now = c\<lparr>cache := filter (\<lambda>(key, entry). \<not> now > expiresAt entry) (cache c)\<rparr>"

text \<open>
  A history of calls on one cache (\<open>getOrFetch\<close> is a \<open>get\<close>, then possibly a \<open>set\<close> after
  the awaited fetch).
\<close>

datatype 'v cache_op =
    Get string string int
  | Set string string 'v "int option" int
  | Invalidate string string
  | InvalidateType string
  | Clear
  | CacheCleanup int

fun cache_step :: "'v search_cache \<Rightarrow> 'v cache_op \<Rightarrow> 'v search_cache" where
  "cache_step c (Get type key now) = snd (cache_get c type key now)"
| "cache_step c (Set type key v customTtl now) = cache_set c type key v customTtl now"
| "cache_step c (Invalidate type key) = snd (invalidate c type key)"
| "cache_step c (InvalidateType type) = snd (invalidateType c type)"
| "cache_step c Clear = clear c"
| "cache_step c (CacheCleanup now) = cache_cleanup c now"

definition cache_run :: "'v search_cache \<Rightarrow> 'v cache_op list \<Rightarrow> 'v search_cache" where
  "cache_run = foldl cache_step"

text \<open>
  The invariant of the cache: keys are unique and not empty (every key is made by
  \<open>generateKey\<close>), \<open>maxSize\<close> is positive and the size is within \<open>maxSize\<close>.
\<close>

definition cache_inv :: "'v search_cache \<Rightarrow> bool" where
  "cache_inv c =
     (distinct (map fst (cache c)) \<and> [] \<notin> set (map fst (cache c))
      \<and> 0 < maxSize c \<and> length (cache c) \<le> maxSize c)"

text \<open>\<open>below oa x\<close>: the bound \<open>oa\<close> (\<open>None\<close> for \<open>Infinity\<close>) is finite and at most \<open>x\<close>.\<close>

definition below :: "int option \<Rightarrow> int \<Rightarrow> bool" where
  "below oa x = (case oa of None \<Rightarrow> False | Some a \<Rightarrow> a \<le> x)"

text \<open>The entry that \<open>set\<close> stores.\<close>

definition new_entry :: "'v search_cache \<Rightarrow> 'v \<Rightarrow> int option \<Rightarrow> int \<Rightarrow> 'v cache_entry" where
  "new_entry c v customTtl now =
     \<lparr>val = v, createdAt = now, expiresAt = now + num_or customTtl (ttl c), lastAccess = now,
      entryHits = 0\<rparr>"

section \<open>Error store: \<open>ErrorStore\<close>\<close>

text \<open>
  \<open>errors\<close> is a \<open>Map\<close> from id to entry, kept as an association list in insertion order
  (\<open>_cleanup\<close> sorts its entries with a stable sort, so the order decides ties). An entry's
  \<open>timestamp\<close> is an ISO string that the code only reads back through \<open>new Date(...)\<close>; the
  model keeps the milliseconds it denotes, as \<open>timestampMs\<close>. The entry's \<open>id\<close> is
  \<open>errorId\<close>. The fields that neither \<open>_cleanup\<close> nor \<open>resolveError\<close> reads (type, message,
  code, status, stack, context, retryable, response) are carried as one value \<open>detail\<close>.
  The id that \<open>_generateId\<close> makes from the clock and \<open>Math.random()\<close> is an argument of
  \<open>recordError\<close>. The file is not modelled: \<open>load\<close> is the list of entries the constructor
  starts with, and \<open>save\<close> only clears \<open>dirty\<close>.
\<close>

record 'd error_entry =
  errorId :: string
  timestampMs :: int
  detail :: 'd
  resolved :: bool
  resolution :: "string option"
  resolvedAt :: "int option"
  resolvedBy :: "string option"

record 'd error_store =
  maxErrors :: nat
  errors :: "(string \<times> 'd error_entry) list"
  dirty :: bool

definition ErrorStore :: "nat option \<Rightarrow> (string \<times> 'd error_entry) list \<Rightarrow> 'd error_store" where
  "ErrorStore opt_maxErrors loaded =
     \<lparr>maxErrors = (case opt_maxErrors of None \<Rightarrow> 1000 | Some n \<Rightarrow> if n = 0 then 1000 else n),
      errors = loaded,
      dirty = False\<rparr>"

text \<open>
  \<open>arr.slice(0, end)\<close>: a negative \<open>end\<close> counts from the end of the array, and the result
  is empty when that falls before the start.
\<close>

definition slice_to :: "int \<Rightarrow> 'a list \<Rightarrow> 'a list" where
  "slice_to e xs = (if e < 0 then take (nat (int (length xs) + e)) xs else take (nat e) xs)"

text \<open>
  \<open>sort((a, b) => new Date(b[1].timestamp) - new Date(a[1].timestamp))\<close>: newest first,
  and stable, so it is the stable ascending sort on the negated time.
\<close>

definition newest_first :: "(string \<times> 'd error_entry) list \<Rightarrow> (string \<times> 'd error_entry) list" where
  "newest_first xs = sort_key (\<lambda>p. - timestampMs (snd p)) xs"

definition error_cleanup :: "'d error_store \<Rightarrow> 'd error_store" where
  "error_cleanup s =
     (if length (errors s) \<le> maxErrors s then s
      else
        let sorted = newest_first (errors s);
            unresolved = filter (\<lambda>(k, e). \<not> resolved e) sorted;
            resolved' = filter (\<lambda>(k, e). resolved e) sorted;
            toKeep = slice_to (int (maxErrors s))
                       (unresolved @ slice_to (int (maxErrors s) - int (length unresolved)) resolved')
        in s\<lparr>errors := toKeep, dirty := True\<rparr>)"

definition recordError :: "'d error_store \<Rightarrow> string \<Rightarrow> 'd \<Rightarrow> int \<Rightarrow> string \<times> 'd error_store" where
  "recordError s newId d now =
     (let errorEntry = \<lparr>errorId = newId, timestampMs = now, detail = d, resolved = False,
                         resolution = None, resolvedAt = None, resolvedBy = None\<rparr>;
          s1 = s\<lparr>errors := AList.update newId errorEntry (errors s), dirty := True\<rparr>
      in (newId, error_cleanup s1))"

definition resolveError ::
  "'d error_store \<Rightarrow> string \<Rightarrow> string option \<Rightarrow> string option \<Rightarrow> int \<Rightarrow> bool \<times> 'd error_store" where
  "resolveError s eid notes by' now =
     (case map_of (errors s) eid of
        None \<Rightarrow> (False, s)
      | Some e \<Rightarrow>
          (True,
           s\<lparr>errors := AList.update eid
                          (e\<lparr>resolved := True,
                             resolution := Some (str_or notes ''Resuelto''),
                             resolvedAt := Some now,
                             resolvedBy := Some (str_or by' ''system'')\<rparr>) (errors s),
             dirty := True\<rparr>))"

text \<open>The entries of a store that are not resolved, and those that are.\<close>

definition unresolved_of :: "(string \<times> 'd error_entry) list \<Rightarrow> (string \<times> 'd error_entry) list" where
  "unresolved_of xs = filter (\<lambda>(k, e). \<not> resolved e) xs"

definition resolved_of :: "(string \<times> 'd error_entry) list \<Rightarrow> (string \<times> 'd error_entry) list" where
  "resolved_of xs = filter (\<lambda>(k, e). resolved e) xs"

text \<open>
  Two stores with \<open>maxErrors = 2\<close> as \<open>recordError\<close> leaves them just before \<open>_cleanup\<close>:
  two resolved entries and a new unresolved one, and three unresolved entries. A third,
  within its bound, holds one resolved and one unresolved entry.
\<close>

definition scenario_entry :: "string \<Rightarrow> int \<Rightarrow> bool \<Rightarrow> string \<times> unit error_entry" where
  "scenario_entry i t r =
     (i, \<lparr>errorId = i, timestampMs = t, detail = (), resolved = r,
          resolution = (if r then Some ''Resuelto'' else None),
          resolvedAt = (if r then Some (t + 1) else None),
          resolvedBy = (if r then Some ''system'' else None)\<rparr>)"

definition scenario_mixed :: "unit error_store" where
  "scenario_mixed =
     \<lparr>maxErrors = 2,
      errors = [scenario_entry ''err-a'' 10 True, scenario_entry ''err-b'' 20 True,
                scenario_entry ''err-c'' 30 False],
      dirty = True\<rparr>"

definition scenario_unresolved :: "unit error_store" where
  "scenario_unresolved =
     \<lparr>maxErrors = 2,
      errors = [scenario_entry ''err-a'' 10 False, scenario_entry ''err-b'' 20 False,
                scenario_entry ''err-c'' 30 False],
      dirty = True\<rparr>"

definition scenario_within :: "unit error_store" where
  "scenario_within =
     \<lparr>maxErrors = 2,
      errors = [scenario_entry ''err-a'' 10 True, scenario_entry ''err-b'' 20 False],
      dirty = False\<rparr>"

section \<open>Reconciliation: \<open>ReconciliationService._reconciliar\<close>\<close>

subsection \<open>JavaScript values\<close>

text \<open>
  The fields of a comprobante are read through truthiness tests, strict comparison,
  \<open>String(...)\<close> and template strings, so they are kept as JavaScript values: \<open>undefined\<close>,
  \<open>null\<close>, a number or a string. The numbers are the safe integers, those strictly
  between \<open>- 2 ^ 53\<close> and \<open>2 ^ 53\<close>: on them \<open>String\<close> writes the decimal numeral and \<open>===\<close>
  is equality of the integers. Ids, order ids, document types and numbers are such
  integers; a value that is not (a fraction, a larger number) has no counterpart in the
  type.
\<close>

typedef safe_int = "{n :: int. - (2 ^ 53) < n \<and> n < 2 ^ 53}"
  by (rule exI [of _ 0]) simp

datatype jsval = Undefined | Null | Num safe_int | Str string

text \<open>The number \<open>n\<close>, for a safe integer \<open>n\<close>.\<close>

definition num :: "int \<Rightarrow> jsval" where
  "num n = Num (Abs_safe_int n)"

fun truthy :: "jsval \<Rightarrow> bool" where
  "truthy Undefined = False"
| "truthy Null = False"
| "truthy (Num n) = (Rep_safe_int n \<noteq> 0)"
| "truthy (Str s) = (s \<noteq> [])"

fun digits :: "nat \<Rightarrow> string" where
  "digits n = (if n < 10 then [''0123456789'' ! n] else digits (n div 10) @ [''0123456789'' ! (n mod 10)])"

text \<open>\<open>String(v)\<close>, which is also what a template string inserts.\<close>

fun to_string :: "jsval \<Rightarrow> string" where
  "to_string Undefined = ''undefined''"
| "to_string Null = ''null''"
| "to_string (Num n) =
     (if Rep_safe_int n < 0 then ''-'' @ digits (nat (- Rep_safe_int n))
      else digits (nat (Rep_safe_int n)))"
| "to_string (Str s) = s"

subsection \<open>Records and the remote client\<close>

text \<open>
  A local comprobante and the one Biller returns are objects with the same fields. The
  fields \<open>id\<close> and \<open>key\<close> are \<open>comprobante_id\<close> and \<open>comprobante_key\<close> here.
\<close>

record comprobante =
  comprobante_id :: jsval
  comprobante_key :: jsval
  shopify_order_id :: jsval
  tipo_comprobante :: jsval
  serie :: jsval
  numero :: jsval
  cae_numero :: jsval

text \<open>The error a lookup throws: \<open>err.status\<close> and \<open>err.message\<close>.\<close>

record lookup_error =
  status :: jsval
  lookup_message :: jsval

text \<open>
  Everything outside the service is a state \<open>'w\<close>: the two lookups of \<open>billerClient\<close> take
  it and return a comprobante, \<open>null\<close> (\<open>Inr None\<close>) or throw (\<open>Inl\<close>), together with the
  next state, so a lookup may answer differently each time. \<open>clock\<close> reads the time and
  \<open>delay\<close> is \<open>_delay(ms)\<close>. Every lookup returns: a lookup that never settles has no report.
\<close>

record 'w recon_env =
  obtenerComprobante :: "jsval \<Rightarrow> 'w \<Rightarrow> (lookup_error + comprobante option) \<times> 'w"
  buscarPorNumeroInterno :: "string \<Rightarrow> 'w \<Rightarrow> (lookup_error + comprobante option) \<times> 'w"
  clock :: "'w \<Rightarrow> int"
  delay :: "int \<Rightarrow> 'w \<Rightarrow> 'w"

datatype discrepancy_type =
  MISSING_IN_BILLER | MISSING_IN_LOCAL | DATA_MISMATCH | PROCESSING_ERROR | PENDING_EMISSION

datatype severity = CRITICAL | HIGH | MEDIUM | LOW | INFO

text \<open>
  The two recommended actions, for the texts
  \<open>Verificar si la emision fallo y re-emitir si es necesario\<close> and
  \<open>Actualizar datos locales con los de Biller\<close> (the first carries accents in the source).
\<close>

datatype accion = VerificarYReemitir | ActualizarDatosLocales

record inconsistencia =
  campo :: string
  valor_local :: jsval
  valor_biller :: jsval

record discrepancia =
  tipo :: discrepancy_type
  severity :: severity
  local :: comprobante
  biller :: "comprobante option"
  inconsistencias :: "inconsistencia list"
  mensaje :: string
  accionRecomendada :: accion

record verificado =
  verificado_local :: comprobante
  verificado_biller :: comprobante
  verificadoAt :: int

record error_item =
  error_comprobante :: comprobante
  error_message :: jsval
  error_tipo :: string

definition verificarConsistencia :: "comprobante \<Rightarrow> comprobante \<Rightarrow> inconsistencia list" where
  "verificarConsistencia l b =
     (if truthy (tipo_comprobante l) \<and> truthy (tipo_comprobante b)
         \<and> tipo_comprobante l \<noteq> tipo_comprobante b
      then [\<lparr>campo = ''tipo_comprobante'', valor_local = tipo_comprobante l,
             valor_biller = tipo_comprobante b\<rparr>] else [])
     @ (if truthy (serie l) \<and> truthy (serie b) \<and> serie l \<noteq> serie b
        then [\<lparr>campo = ''serie'', valor_local = serie l, valor_biller = serie b\<rparr>] else [])
     @ (if truthy (numero l) \<and> truthy (numero b) \<and> to_string (numero l) \<noteq> to_string (numero b)
        then [\<lparr>campo = ''numero'', valor_local = numero l, valor_biller = numero b\<rparr>] else [])
     @ (if truthy (cae_numero l) \<and> truthy (cae_numero b) \<and> cae_numero l \<noteq> cae_numero b
        then [\<lparr>campo = ''cae_numero'', valor_local = cae_numero l, valor_biller = cae_numero b\<rparr>]
        else [])"

subsection \<open>The loop\<close>

text \<open>
  The first half of the loop body: the lookup by id and, when it found nothing, the
  lookup by internal number. \<open>FetchError\<close> is the branch that pushes to \<open>errores\<close> and
  continues; \<open>Remote\<close> carries \<open>billerComprobante\<close> as the analysis sees it.
\<close>

datatype lookup_outcome = FetchError lookup_error | Remote "comprobante option"

definition buscarPorOrden ::
  "'w recon_env \<Rightarrow> comprobante \<Rightarrow> comprobante option \<Rightarrow> 'w \<Rightarrow> lookup_outcome \<times> 'w" where
  "buscarPorOrden env l billerComprobante w =
     (if billerComprobante = None \<and> truthy (shopify_order_id l)
      then (case buscarPorNumeroInterno env (''shopify-'' @ to_string (shopify_order_id l)) w of
              (Inr found, w') \<Rightarrow> (Remote found, w')
            | (Inl err, w') \<Rightarrow> (Remote None, w'))
      else (Remote billerComprobante, w))"

definition buscarEnBiller :: "'w recon_env \<Rightarrow> comprobante \<Rightarrow> 'w \<Rightarrow> lookup_outcome \<times> 'w" where
  "buscarEnBiller env l w =
     (if truthy (comprobante_id l)
      then (case obtenerComprobante env (comprobante_id l) w of
              (Inr found, w') \<Rightarrow> buscarPorOrden env l found w'
            | (Inl err, w') \<Rightarrow>
                if status err \<noteq> num 404 then (FetchError err, w')
                else buscarPorOrden env l None w')
      else buscarPorOrden env l None w)"

definition missing_in_biller :: "comprobante \<Rightarrow> discrepancia" where
  "missing_in_biller l =
     \<lparr>tipo = MISSING_IN_BILLER, severity = CRITICAL, local = l, biller = None,
      inconsistencias = [],
      mensaje = ''Comprobante ''
        @ to_string (if truthy (comprobante_id l) then comprobante_id l else comprobante_key l)
        @ '' no encontrado en Biller'',
      accionRecomendada = VerificarYReemitir\<rparr>"

definition data_mismatch :: "comprobante \<Rightarrow> comprobante \<Rightarrow> inconsistencia list \<Rightarrow> discrepancia" where
  "data_mismatch l b incs =
     \<lparr>tipo = DATA_MISMATCH, severity = MEDIUM, local = l, biller = Some b,
      inconsistencias = incs,
      mensaje = ''Datos inconsistentes para comprobante '' @ to_string (comprobante_id l),
      accionRecomendada = ActualizarDatosLocales\<rparr>"

text \<open>
  The accumulators \<open>discrepancias\<close>, \<open>verificados\<close> and \<open>errores\<close>, in this order, and the
  outside state. The \<open>continue\<close> of the fetch-error branch skips the delay. The outer
  \<open>catch\<close> (\<open>verification_error\<close>) is reached only when reading a field of the local record
  throws, which an object never does.
\<close>

type_synonym 'w recon_acc = "(discrepancia list \<times> verificado list \<times> error_item list) \<times> 'w"

fun reconciliar_step :: "'w recon_env \<Rightarrow> 'w recon_acc \<Rightarrow> comprobante \<Rightarrow> 'w recon_acc" where
  "reconciliar_step env ((ds, vs, es), w) l =
     (case buscarEnBiller env l w of
        (FetchError err, w') \<Rightarrow>
          ((ds, vs,
            es @ [\<lparr>error_comprobante = l, error_message = lookup_message err,
                    error_tipo = ''biller_fetch_error''\<rparr>]), w')
      | (Remote None, w') \<Rightarrow> ((ds @ [missing_in_biller l], vs, es), delay env 100 w')
      | (Remote (Some b), w') \<Rightarrow>
          (let incs = verificarConsistencia l b in
           if length incs > 0
           then ((ds @ [data_mismatch l b incs], vs, es), delay env 100 w')
           else ((ds, vs @ [\<lparr>verificado_local = l, verificado_biller = b,
                               verificadoAt = clock env w'\<rparr>], es),
                 delay env 100 w')))"

subsection \<open>The success rate in double precision\<close>

text \<open>
  \<open>Math.round((verificados.length / total) * 100)\<close> is computed on IEEE 754 doubles. A
  positive double is \<open>m / 2 ^ k\<close> with \<open>m\<close> below \<open>2 ^ 53\<close>; it is kept as the pair
  \<open>(m, k)\<close>. Rounding the quotient \<open>a / b\<close> of two naturals to the nearest double, ties to
  even: \<open>find_shift\<close> scales the quotient into \<open>[2 ^ 52, 2 ^ 53)\<close> and \<open>round_half_even\<close> rounds
  it to an integer. Both operands here are small enough (the quotient is at most 1 and
  the product at most 100) for the scaling to go upwards only, and far from the
  subnormal range.
\<close>

function find_shift :: "nat \<Rightarrow> nat \<Rightarrow> nat \<Rightarrow> nat" where
  "find_shift a b k = (if a = 0 \<or> 2 ^ 52 * b \<le> a * 2 ^ k then k else find_shift a b (Suc k))"
  by pat_completeness auto
termination
proof (relation "measure (\<lambda>(a, b, k). 2 ^ 52 * b - a * 2 ^ k)")
  show "wf (measure (\<lambda>(a, b, k). 2 ^ 52 * b - a * 2 ^ k))" by simp
next
  fix a b k :: nat
  assume "\<not> (a = 0 \<or> 2 ^ 52 * b \<le> a * 2 ^ k)"
  then have "0 < a * 2 ^ k" "a * 2 ^ k < 2 ^ 52 * b" by simp_all
  moreover have "a * 2 ^ Suc k = a * 2 ^ k + a * 2 ^ k" by simp
  ultimately have "2 ^ 52 * b - a * 2 ^ Suc k < 2 ^ 52 * b - a * 2 ^ k" by linarith
  then show "((a, b, Suc k), (a, b, k)) \<in> measure (\<lambda>(a, b, k). 2 ^ 52 * b - a * 2 ^ k)"
    by simp
qed

definition round_half_even :: "nat \<Rightarrow> nat \<Rightarrow> nat" where
  "round_half_even n d =
     (let q = n div d; r = n mod d in
      if 2 * r < d then q
      else if 2 * r > d then q + 1
      else if even q then q else q + 1)"

definition double_of_quotient :: "nat \<Rightarrow> nat \<Rightarrow> nat \<times> nat" where
  "double_of_quotient a b = (let k = find_shift a b 0 in (round_half_even (a * 2 ^ k) b, k))"

text \<open>\<open>x / y\<close> on two array lengths, \<open>x * 100\<close>, and \<open>Math.round\<close> (ties towards \<open>+Infinity\<close>).\<close>

definition double_div :: "nat \<Rightarrow> nat \<Rightarrow> nat \<times> nat" where
  "double_div x y = double_of_quotient x y"

definition double_times_100 :: "nat \<times> nat \<Rightarrow> nat \<times> nat" where
  "double_times_100 x = double_of_quotient (fst x * 100) (2 ^ snd x)"

definition math_round :: "nat \<times> nat \<Rightarrow> int" where
  "math_round x = int ((2 * fst x + 2 ^ snd x) div 2 ^ (snd x + 1))"

definition tasaExito_of :: "nat \<Rightarrow> nat \<Rightarrow> int" where
  "tasaExito_of nverificados ntotal =
     (if ntotal > 0 then math_round (double_times_100 (double_div nverificados ntotal)) else 100)"

subsection \<open>The report\<close>

text \<open>
  The counts of \<open>resumen\<close> are \<open>n_total\<close>, \<open>n_verificados\<close>, \<open>n_discrepancias\<close> and
  \<open>n_errores\<close> here (the report itself has fields \<open>verificados\<close>, \<open>discrepancias\<close> and \<open>errores\<close>). The
  report's \<open>id\<close>, made from the clock and \<open>Math.random()\<close>, is an argument.
\<close>

record resumen =
  n_total :: nat
  n_verificados :: nat
  n_discrepancias :: nat
  n_errores :: nat
  tasaExito :: int

record por_severidad =
  critical :: nat
  high :: nat
  medium :: nat
  low :: nat

record resultado =
  reporte_id :: string
  reporte_timestamp :: int
  resumen :: resumen
  discrepancias :: "discrepancia list"
  errores :: "error_item list"
  verificados :: "verificado list"
  porSeveridad :: por_severidad

definition reconciliar ::
  "'w recon_env \<Rightarrow> string \<Rightarrow> comprobante list \<Rightarrow> 'w \<Rightarrow> resultado \<times> 'w" where
  "reconciliar env newId comprobantesLocales w0 =
     (case foldl (reconciliar_step env) (([], [], []), w0) comprobantesLocales of
        ((ds, vs, es), w) \<Rightarrow>
          (\<lparr>reporte_id = newId,
            reporte_timestamp = clock env w,
            resumen = \<lparr>n_total = length comprobantesLocales,
                       n_verificados = length vs,
                       n_discrepancias = length ds,
                       n_errores = length es,
                       tasaExito = tasaExito_of (length vs) (length comprobantesLocales)\<rparr>,
            discrepancias = ds,
            errores = es,
            verificados = take 10 vs,
            porSeveridad = \<lparr>critical = length (filter (\<lambda>d. severity d = CRITICAL) ds),
                            high = length (filter (\<lambda>d. severity d = HIGH) ds),
                            medium = length (filter (\<lambda>d. severity d = MEDIUM) ds),
                            low = length (filter (\<lambda>d. severity d = LOW) ds)\<rparr>\<rparr>,
           w))"

declare digits.simps [simp del]

declare find_shift.simps [simp del]

declare reconciliar_step.simps [simp del]

subsection \<open>What the remote side answers\<close>

text \<open>
  The conditions of the reconciliation rules, stated on the two lookups of the remote
  client and not on the loop. \<open>consulta_id\<close> is the answer to the lookup by id, which is
  made only for a local record with an id. \<open>sin_registro_remoto env l w\<close>: started in the
  outside state \<open>w\<close>, the lookups for the local record \<open>l\<close> find no remote record: the
  lookup by id is not made, returns nothing or throws with status 404, and the lookup by
  internal number is not made, returns nothing or throws. \<open>registro_remoto env l w b\<close>:
  the lookups find the remote record \<open>b\<close>, by id, or by internal number after the lookup by
  id was not made, returned nothing or threw with status 404.
\<close>

definition consulta_id ::
  "'w recon_env \<Rightarrow> comprobante \<Rightarrow> 'w \<Rightarrow> (lookup_error + comprobante option) \<times> 'w" where
  "consulta_id env l w =
     (if truthy (comprobante_id l) then obtenerComprobante env (comprobante_id l) w
      else (Inr None, w))"

definition numero_interno :: "comprobante \<Rightarrow> string" where
  "numero_interno l = ''shopify-'' @ to_string (shopify_order_id l)"

definition sin_registro_remoto :: "'w recon_env \<Rightarrow> comprobante \<Rightarrow> 'w \<Rightarrow> bool" where
  "sin_registro_remoto env l w =
     (case consulta_id env l w of
        (Inr (Some found), w') \<Rightarrow> False
      | (r, w') \<Rightarrow>
          (case r of Inl err \<Rightarrow> status err = num 404 | Inr found \<Rightarrow> True)
          \<and> (if truthy (shopify_order_id l)
             then (case fst (buscarPorNumeroInterno env (numero_interno l) w') of
                     Inr (Some found) \<Rightarrow> False
                   | other \<Rightarrow> True)
             else True))"

definition registro_remoto :: "'w recon_env \<Rightarrow> comprobante \<Rightarrow> 'w \<Rightarrow> comprobante \<Rightarrow> bool" where
  "registro_remoto env l w b =
     (case consulta_id env l w of
        (Inr (Some found), w') \<Rightarrow> found = b
      | (r, w') \<Rightarrow>
          (case r of Inl err \<Rightarrow> status err = num 404 | Inr found \<Rightarrow> True)
          \<and> truthy (shopify_order_id l)
          \<and> fst (buscarPorNumeroInterno env (numero_interno l) w') = Inr (Some b))"

text \<open>
  \<open>mismos_datos l b\<close> follows the words of the specification: none of type, series, number
  and authorization code of the remote record \<open>b\<close> differs from the local record \<open>l\<close>.
\<close>

definition mismos_datos :: "comprobante \<Rightarrow> comprobante \<Rightarrow> bool" where
  "mismos_datos l b =
     (tipo_comprobante b = tipo_comprobante l \<and> serie b = serie l
      \<and> numero b = numero l \<and> cae_numero b = cae_numero l)"

text \<open>
  \<open>despues env l w\<close> is the outside state after the turn of the local record \<open>l\<close>, again
  told on the lookups: the state the lookup by id leaves, then, unless that lookup found
  a record or failed with another status than 404, the state the lookup by internal
  number leaves when the record has an order id, and last the delay of 100 ms, which a
  failed lookup by id skips.
\<close>

definition despues :: "'w recon_env \<Rightarrow> comprobante \<Rightarrow> 'w \<Rightarrow> 'w" where
  "despues env l w =
     (case consulta_id env l w of
        (Inr (Some found), w') \<Rightarrow> delay env 100 w'
      | (r, w') \<Rightarrow>
          if (case r of Inl err \<Rightarrow> status err \<noteq> num 404 | Inr found \<Rightarrow> False) then w'
          else delay env 100
                 (if truthy (shopify_order_id l)
                  then snd (buscarPorNumeroInterno env (numero_interno l) w')
                  else w'))"

text \<open>
  A remote side for the scenarios: the outside state counts the lookups made; the lookup
  by id finds the records numbered \<open>1\<close> to \<open>n\<close> and answers 404 for every other id; the
  lookup by internal number finds nothing. \<open>scenario_local i\<close> is the local record with id
  \<open>i\<close> and order id \<open>1000 + i\<close>. In \<open>scenario_env_orden\<close> the lookup by id always answers
  404 and the lookup by internal number finds the record of order 1001 and no other.
\<close>

definition scenario_local :: "int \<Rightarrow> comprobante" where
  "scenario_local i =
     \<lparr>comprobante_id = num i, comprobante_key = Str ''k'', shopify_order_id = num (1000 + i),
      tipo_comprobante = num 101, serie = Str ''A'', numero = num i, cae_numero = Undefined\<rparr>"

definition scenario_env :: "int \<Rightarrow> nat recon_env" where
  "scenario_env n =
     \<lparr>obtenerComprobante = (\<lambda>v w.
        (case v of
           Num i \<Rightarrow> if 1 \<le> Rep_safe_int i \<and> Rep_safe_int i \<le> n
                    then Inr (Some (scenario_local (Rep_safe_int i)))
                    else Inl \<lparr>status = num 404, lookup_message = Str ''Not Found''\<rparr>
         | other \<Rightarrow> Inl \<lparr>status = num 404, lookup_message = Str ''Not Found''\<rparr>, Suc w)),
      buscarPorNumeroInterno = (\<lambda>s w. (Inr None, Suc w)),
      clock = (\<lambda>w. int w),
      delay = (\<lambda>ms w. w)\<rparr>"

definition scenario_env_orden :: "nat recon_env" where
  "scenario_env_orden =
     \<lparr>obtenerComprobante = (\<lambda>v w.
        (Inl \<lparr>status = num 404, lookup_message = Str ''Not Found''\<rparr>, Suc w)),
      buscarPorNumeroInterno = (\<lambda>s w.
        (if s = ''shopify-1001'' then Inr (Some (scenario_local 1)) else Inr None, Suc w)),
      clock = (\<lambda>w. int w),
      delay = (\<lambda>ms w. w)\<rparr>"

section \<open>Association lists as insertion-ordered maps\<close>

lemma update_new_append:
  "map_of al k = None \<Longrightarrow> AList.update k v al = al @ [(k, v)]"
  by (induction al) (auto split: if_splits)

lemma length_update_old:
  "map_of al k \<noteq> None \<Longrightarrow> length (AList.update k v al) = length al"
  by (induction al) (auto split: if_splits)

lemma length_update_le: "length (AList.update k v al) \<le> Suc (length al)"
  by (induction al) auto

lemma length_delete_present:
  "distinct (map fst al) \<Longrightarrow> map_of al k = Some v \<Longrightarrow> Suc (length (AList.delete k al)) = length al"
proof (induction al)
  case Nil
  then show ?case by simp
next
  case (Cons p al)
  show ?case
  proof (cases "fst p = k")
    case True
    then have "k \<notin> fst ` set al" using Cons.prems(1) by auto
    then show ?thesis using True by (simp add: AList.delete_id)
  next
    case False
    then show ?thesis using Cons by (cases p) (auto simp: AList.delete_eq)
  qed
qed

lemma keys_update: "set (map fst (AList.update k v al)) = insert k (set (map fst al))"
  using AList.dom_update [of k v al] by simp

lemma keys_delete: "set (map fst (AList.delete k al)) \<subseteq> set (map fst al)"
  using AList.dom_delete_subset [of k al] by simp

section \<open>Dedup gate: admission and window\<close>

lemma dedupe_inv_step: "dedupe_inv p \<Longrightarrow> dedupe_inv (dedupe_step p op)"
  by (cases p; cases op)
     (auto simp: dedupe_inv_def tryAcquire_def complete_def release_def cleanup_def Let_def
           split: option.splits if_splits)

lemma dedupe_inv_run: "dedupe_inv p \<Longrightarrow> dedupe_inv (dedupe_run p ops)"
  unfolding dedupe_run_def
  by (induction ops arbitrary: p) (simp_all add: dedupe_inv_step)

lemma held_step:
  "k \<in> inProgress (fst p) \<Longrightarrow> \<not> finishes k op \<Longrightarrow> k \<in> inProgress (fst (dedupe_step p op))"
  by (cases p; cases op)
     (auto simp: tryAcquire_def complete_def release_def cleanup_def Let_def)

lemma held_run:
  "k \<in> inProgress (fst p) \<Longrightarrow> \<not> list_ex (finishes k) ops \<Longrightarrow> k \<in> inProgress (fst (dedupe_run p ops))"
  unfolding dedupe_run_def
  by (induction ops arbitrary: p) (simp_all add: held_step)

text \<open>
  C1. On a new store \<open>tryAcquire\<close> returns \<open>true\<close> and an immediate second call returns
  \<open>false\<close>; on any store the second of two consecutive calls returns \<open>false\<close>; once a call
  has returned \<open>true\<close>, every later call for the key returns \<open>false\<close> as long as no
  \<open>complete\<close> or \<open>release\<close> of that key has run, whatever sweeps and calls for other keys
  happen in between. In every state reachable from a new store no key is both in
  \<open>inProgress\<close> and in \<open>processed\<close>, and the number of admitted, unfinished tasks of a key
  is at most one (it is one exactly for the keys in \<open>inProgress\<close>).
\<close>

theorem dedupe_mutual_exclusion:
  "fst (tryAcquire (WebhookDedupeStore w) t r)
   \<and> \<not> fst (tryAcquire (snd (tryAcquire (WebhookDedupeStore w) t r)) t r)
   \<and> \<not> fst (tryAcquire (snd (tryAcquire s t r)) t r)
   \<and> (fst (tryAcquire s t r) \<and> \<not> list_ex (finishes (dedupe_key t r)) ops
        \<longrightarrow> \<not> fst (tryAcquire (fst (dedupe_run (snd (tryAcquire s t r), a) ops)) t r))
   \<and> (case dedupe_run (WebhookDedupeStore w, \<lambda>k. 0) ops' of (s', active) \<Rightarrow>
        inProgress s' \<inter> dom (processed s') = {}
        \<and> (\<forall>k. active k \<le> 1 \<and> (active k = 1 \<longleftrightarrow> k \<in> inProgress s')))"
proof -
  have fresh: "fst (tryAcquire (WebhookDedupeStore w) t r)"
    by (simp add: tryAcquire_def WebhookDedupeStore_def Let_def)
  have twice: "\<not> fst (tryAcquire (snd (tryAcquire s t r)) t r)" for s
    by (simp add: tryAcquire_def Let_def)
  have later: "\<not> fst (tryAcquire (fst (dedupe_run (snd (tryAcquire s t r), a) ops)) t r)"
    if "fst (tryAcquire s t r)" "\<not> list_ex (finishes (dedupe_key t r)) ops"
  proof -
    from that(1) have "dedupe_key t r \<in> inProgress (fst (snd (tryAcquire s t r), a))"
      by (auto simp: tryAcquire_def Let_def split: if_splits)
    from held_run [OF this that(2)] show ?thesis
      by (simp add: tryAcquire_def Let_def)
  qed
  have "dedupe_inv (WebhookDedupeStore w, \<lambda>k. 0)"
    by (simp add: dedupe_inv_def WebhookDedupeStore_def)
  then have "dedupe_inv (dedupe_run (WebhookDedupeStore w, \<lambda>k. 0) ops')"
    by (rule dedupe_inv_run)
  then have reach: "case dedupe_run (WebhookDedupeStore w, \<lambda>k. 0) ops' of (s', active) \<Rightarrow>
        inProgress s' \<inter> dom (processed s') = {}
        \<and> (\<forall>k. active k \<le> 1 \<and> (active k = 1 \<longleftrightarrow> k \<in> inProgress s'))"
    by (auto simp: dedupe_inv_def split: prod.splits)
  from fresh twice later reach show ?thesis by blast
qed

theorem dedupe_mutual_exclusion_witness:
  "fst (tryAcquire (WebhookDedupeStore None) ''orders/paid'' ''42'')
   \<and> \<not> fst (tryAcquire (snd (tryAcquire (WebhookDedupeStore None) ''orders/paid'' ''42'')) ''orders/paid'' ''42'')
   \<and> \<not> list_ex (finishes (dedupe_key ''orders/paid'' ''42''))
          [Cleanup 400000, TryAcquire ''orders/paid'' ''43'', Complete ''orders/paid'' ''43'' 400001]
   \<and> \<not> fst (tryAcquire (fst (dedupe_run (snd (tryAcquire (WebhookDedupeStore None) ''orders/paid'' ''42''), \<lambda>k. 0)
          [Cleanup 400000, TryAcquire ''orders/paid'' ''43'', Complete ''orders/paid'' ''43'' 400001])) ''orders/paid'' ''42'')"
  using dedupe_mutual_exclusion [of None "''orders/paid''" "''42''" "WebhookDedupeStore None"
      "[Cleanup 400000, TryAcquire ''orders/paid'' ''43'', Complete ''orders/paid'' ''43'' 400001]" "\<lambda>k. 0" "[]"]
  by (simp add: dedupe_key_def)

lemma cleanup_keeps_recent:
  "processed s k = Some tc \<Longrightarrow> now - windowMs s \<le> tc \<Longrightarrow> processed (cleanup s now) k = Some tc"
  by (simp add: cleanup_def Let_def)

lemma cleanup_frame: "windowMs (cleanup s now) = windowMs s \<and> inProgress (cleanup s now) = inProgress s"
  by (simp add: cleanup_def Let_def)

lemma sweeps_keep_recent:
  "processed s k = Some tc \<Longrightarrow> \<forall>now \<in> set sweeps. now - windowMs s \<le> tc \<Longrightarrow>
   processed (foldl cleanup s sweeps) k = Some tc"
proof (induction sweeps arbitrary: s)
  case Nil
  then show ?case by simp
next
  case (Cons now sweeps)
  have "processed (cleanup s now) k = Some tc"
    using Cons.prems by (simp add: cleanup_keeps_recent)
  moreover have "\<forall>n \<in> set sweeps. n - windowMs (cleanup s now) \<le> tc"
    using Cons.prems by (simp add: cleanup_frame)
  ultimately show ?case using Cons.IH by simp
qed

text \<open>
  C2, as stated, fails: \<open>tryAcquire\<close> reads no clock and looks only at whether the key is
  present in \<open>processed\<close>; entries leave \<open>processed\<close> only in \<open>cleanup\<close>, which the
  constructor schedules every 60 seconds. With a window of 300000 ms, a key completed at
  time 0 is still refused after the sweeps at 60000, ..., 300000 (the last one computes
  cutoff 0 and \<open>0 < 0\<close> is false), so a call at 300001, after the window has elapsed,
  returns \<open>false\<close>.
\<close>

theorem dedupe_window_counterexample:
  "processed (complete (snd (tryAcquire (WebhookDedupeStore None) ''orders/paid'' ''42'')) ''orders/paid'' ''42'' 0)
      (dedupe_key ''orders/paid'' ''42'') = Some 0
   \<and> 0 + windowMs (WebhookDedupeStore None) < 300001
   \<and> \<not> fst (tryAcquire
        (fst (dedupe_run (WebhookDedupeStore None, \<lambda>k. 0)
           [TryAcquire ''orders/paid'' ''42'', Complete ''orders/paid'' ''42'' 0,
            Cleanup 60000, Cleanup 120000, Cleanup 180000, Cleanup 240000, Cleanup 300000]))
        ''orders/paid'' ''42'')"
  by (simp add: dedupe_run_def tryAcquire_def complete_def cleanup_def WebhookDedupeStore_def
        dedupe_key_def Let_def)

text \<open>
  C2, amended. \<open>tryAcquire\<close> returns \<open>false\<close> exactly when the key is in \<open>inProgress\<close> or
  present in \<open>processed\<close>; otherwise it adds the key to \<open>inProgress\<close> and returns \<open>true\<close>,
  and a refused call leaves the store unchanged. After \<open>complete\<close> at time \<open>tc\<close>, sweeps
  that run no later than \<open>tc + windowMs\<close> keep the entry, so \<open>tryAcquire\<close> returns \<open>false\<close>
  (with no sweep at all it returns \<open>false\<close> at any time); after a sweep that runs later
  than \<open>tc + windowMs\<close>, \<open>tryAcquire\<close> returns \<open>true\<close>.
\<close>

theorem dedupe_window_amended:
  "(fst (tryAcquire s t r) \<longleftrightarrow>
      dedupe_key t r \<notin> inProgress s \<and> processed s (dedupe_key t r) = None)
   \<and> snd (tryAcquire s t r) =
       (if fst (tryAcquire s t r) then s\<lparr>inProgress := insert (dedupe_key t r) (inProgress s)\<rparr> else s)
   \<and> ((\<forall>now \<in> set sweeps. now - windowMs s \<le> tc) \<longrightarrow>
        \<not> fst (tryAcquire (foldl cleanup (complete s t r tc) sweeps) t r))
   \<and> (tc < now - windowMs s \<longrightarrow> fst (tryAcquire (cleanup (complete s t r tc) now) t r))"
proof -
  have a: "fst (tryAcquire s t r) \<longleftrightarrow>
      dedupe_key t r \<notin> inProgress s \<and> processed s (dedupe_key t r) = None"
    by (simp add: tryAcquire_def Let_def)
  have b: "snd (tryAcquire s t r) =
       (if fst (tryAcquire s t r) then s\<lparr>inProgress := insert (dedupe_key t r) (inProgress s)\<rparr> else s)"
    by (simp add: tryAcquire_def Let_def)
  have c: "\<not> fst (tryAcquire (foldl cleanup (complete s t r tc) sweeps) t r)"
    if h: "\<forall>now \<in> set sweeps. now - windowMs s \<le> tc"
  proof -
    have "processed (complete s t r tc) (dedupe_key t r) = Some tc"
      by (simp add: complete_def Let_def)
    moreover have "\<forall>now \<in> set sweeps. now - windowMs (complete s t r tc) \<le> tc"
      using h by (simp add: complete_def Let_def)
    ultimately have "processed (foldl cleanup (complete s t r tc) sweeps) (dedupe_key t r) = Some tc"
      by (rule sweeps_keep_recent)
    then show ?thesis by (simp add: tryAcquire_def Let_def)
  qed
  have d: "fst (tryAcquire (cleanup (complete s t r tc) now) t r)" if "tc < now - windowMs s"
    using that by (simp add: tryAcquire_def cleanup_def complete_def Let_def)
  from a b c d show ?thesis by blast
qed

theorem dedupe_window_amended_witness:
  "60000 - windowMs (snd (tryAcquire (WebhookDedupeStore None) ''orders/paid'' ''42'')) \<le> (0::int)
   \<and> 300000 - windowMs (snd (tryAcquire (WebhookDedupeStore None) ''orders/paid'' ''42'')) \<le> (0::int)
   \<and> \<not> fst (tryAcquire (foldl cleanup
          (complete (snd (tryAcquire (WebhookDedupeStore None) ''orders/paid'' ''42'')) ''orders/paid'' ''42'' 0)
          [60000, 300000]) ''orders/paid'' ''42'')
   \<and> (0::int) < 360000 - windowMs (snd (tryAcquire (WebhookDedupeStore None) ''orders/paid'' ''42''))
   \<and> fst (tryAcquire (cleanup
          (complete (snd (tryAcquire (WebhookDedupeStore None) ''orders/paid'' ''42'')) ''orders/paid'' ''42'' 0)
          360000) ''orders/paid'' ''42'')"
  using dedupe_window_amended [of "snd (tryAcquire (WebhookDedupeStore None) ''orders/paid'' ''42'')"
      "''orders/paid''" "''42''" "[60000, 300000]" 0 360000]
  by (simp add: tryAcquire_def WebhookDedupeStore_def Let_def)

section \<open>Circuit breaker: opening, recovery and rejections\<close>

lemma cleanupMetrics_frame:
  "state (cleanupMetrics b now) = state b \<and> failures (cleanupMetrics b now) = failures b
   \<and> failureThreshold (cleanupMetrics b now) = failureThreshold b
   \<and> volumeThreshold (cleanupMetrics b now) = volumeThreshold b
   \<and> timeout (cleanupMetrics b now) = timeout b
   \<and> callsInWindow (metrics (cleanupMetrics b now)) =
       filter (\<lambda>c. now - windowDuration b < timestamp c) (callsInWindow (metrics b))"
  by (simp add: cleanupMetrics_def Let_def)

lemma transitionTo_state: "state (transitionTo b st now) = st"
  by (cases st) (simp_all add: transitionTo_def Let_def)

lemma transitionTo_OPEN:
  "transitionTo b OPEN now = b\<lparr>state := OPEN, nextAttemptTime := Some (now + timeout b)\<rparr>"
  by (simp add: transitionTo_def Let_def)

lemma shouldOpen_eq:
  "fst (shouldOpen b now) \<longleftrightarrow>
     volumeThreshold b \<le> int (length (filter (\<lambda>c. now - windowDuration b < timestamp c) (callsInWindow (metrics b))))
     \<and> failureThreshold b \<le> int (failures b)"
  "snd (shouldOpen b now) = cleanupMetrics b now"
  using cleanupMetrics_frame [of b now]
  by (auto simp: shouldOpen_def Let_def)

lemma recordFailure_CLOSED:
  assumes "state b = CLOSED"
  shows "state (recordFailure b err lat now) =
     (if volumeThreshold b \<le> int (length (filter (\<lambda>c. now - windowDuration b < timestamp c) (callsInWindow (metrics b))))
            + (if 0 < windowDuration b then 1 else 0)
         \<and> failureThreshold b \<le> int (failures b) + 1
      then OPEN else CLOSED)"
    and "state (recordFailure b err lat now) = OPEN \<Longrightarrow>
           nextAttemptTime (recordFailure b err lat now) = Some (now + timeout b)"
    and "failures (recordFailure b err lat now) = failures b + 1"
    and "callsInWindow (metrics (recordFailure b err lat now)) =
           filter (\<lambda>c. now - windowDuration b < timestamp c) (callsInWindow (metrics b) @
             [\<lparr>timestamp = now, success = False, latency = lat,
               error = (case err of None \<Rightarrow> None | Some e \<Rightarrow> message e)\<rparr>])"
proof -
  define m1 where "m1 = (metrics b)\<lparr>totalCalls := totalCalls (metrics b) + 1,
                 failedCalls := failedCalls (metrics b) + 1,
                 latencies := latencies (metrics b) @ [lat],
                 callsInWindow := callsInWindow (metrics b) @
                   [\<lparr>timestamp = now, success = False, latency = lat,
                     error = (case err of None \<Rightarrow> None | Some e \<Rightarrow> message e)\<rparr>]\<rparr>"
  define m2 where "m2 = (if isTimeout err then m1\<lparr>timeouts := timeouts m1 + 1\<rparr> else m1)"
  define b1 where "b1 = b\<lparr>failures := failures b + 1, consecutiveSuccesses := 0,
                 lastFailureTime := Some now, metrics := m2\<rparr>"
  have rf: "recordFailure b err lat now =
      (case shouldOpen b1 now of (True, b2) \<Rightarrow> transitionTo b2 OPEN now | (False, b2) \<Rightarrow> b2)"
    using assms by (simp add: recordFailure_def Let_def b1_def m2_def m1_def)
  have calls: "callsInWindow (metrics b1) = callsInWindow (metrics b) @
                   [\<lparr>timestamp = now, success = False, latency = lat,
                     error = (case err of None \<Rightarrow> None | Some e \<Rightarrow> message e)\<rparr>]"
    by (simp add: b1_def m2_def m1_def)
  have so: "fst (shouldOpen b1 now) \<longleftrightarrow>
      volumeThreshold b \<le> int (length (filter (\<lambda>c. now - windowDuration b < timestamp c) (callsInWindow (metrics b))))
            + (if 0 < windowDuration b then 1 else 0)
         \<and> failureThreshold b \<le> int (failures b) + 1"
    unfolding shouldOpen_eq(1) calls by (auto simp: b1_def)
  have st: "state (snd (shouldOpen b1 now)) = CLOSED" "timeout (snd (shouldOpen b1 now)) = timeout b"
     "failures (snd (shouldOpen b1 now)) = failures b + 1"
    using assms cleanupMetrics_frame [of b1 now] by (simp_all add: shouldOpen_eq(2) b1_def)
  have rf': "recordFailure b err lat now =
      (if fst (shouldOpen b1 now) then transitionTo (snd (shouldOpen b1 now)) OPEN now
       else snd (shouldOpen b1 now))"
    unfolding rf by (cases "shouldOpen b1 now") (simp split: bool.splits)
  show "state (recordFailure b err lat now) =
     (if volumeThreshold b \<le> int (length (filter (\<lambda>c. now - windowDuration b < timestamp c) (callsInWindow (metrics b))))
            + (if 0 < windowDuration b then 1 else 0)
         \<and> failureThreshold b \<le> int (failures b) + 1
      then OPEN else CLOSED)"
    unfolding rf' using so st by (simp add: transitionTo_OPEN)
  show "state (recordFailure b err lat now) = OPEN \<Longrightarrow>
           nextAttemptTime (recordFailure b err lat now) = Some (now + timeout b)"
    unfolding rf' using st by (simp add: transitionTo_OPEN split: if_splits)
  show "failures (recordFailure b err lat now) = failures b + 1"
    unfolding rf' using st by (simp add: transitionTo_OPEN)
  have "callsInWindow (metrics (snd (shouldOpen b1 now))) =
      filter (\<lambda>c. now - windowDuration b < timestamp c) (callsInWindow (metrics b1))"
    using cleanupMetrics_frame [of b1 now] by (simp add: shouldOpen_eq(2) b1_def)
  then show "callsInWindow (metrics (recordFailure b err lat now)) =
           filter (\<lambda>c. now - windowDuration b < timestamp c) (callsInWindow (metrics b) @
             [\<lparr>timestamp = now, success = False, latency = lat,
               error = (case err of None \<Rightarrow> None | Some e \<Rightarrow> message e)\<rparr>])"
    unfolding rf' calls by (simp add: transitionTo_OPEN)
qed

lemma recordFailure_config:
  "failureThreshold (recordFailure b err lat now) = failureThreshold b
   \<and> successThreshold (recordFailure b err lat now) = successThreshold b
   \<and> volumeThreshold (recordFailure b err lat now) = volumeThreshold b
   \<and> windowDuration (recordFailure b err lat now) = windowDuration b
   \<and> timeout (recordFailure b err lat now) = timeout b
   \<and> name (recordFailure b err lat now) = name b"
  by (simp add: recordFailure_def shouldOpen_def cleanupMetrics_def transitionTo_def Let_def
        split: bool.splits)

text \<open>
  C3. While the state is \<open>CLOSED\<close>, \<open>recordFailure\<close> leaves the state \<open>OPEN\<close> exactly when
  the failure counter (after counting this failure) has reached \<open>failureThreshold\<close> and
  the number of calls left in \<open>callsInWindow\<close> after pruning (the calls stamped within
  the last \<open>windowDuration\<close> ms, this failure among them) has reached
  \<open>volumeThreshold\<close>; otherwise the state stays \<open>CLOSED\<close>. With \<open>failureThreshold = 3\<close>
  and \<open>volumeThreshold = 1\<close> (a positive window), three recorded failures leave the state
  \<open>OPEN\<close>, and \<open>canExecute\<close> is \<open>false\<close> until the timeout has run.
\<close>

theorem breaker_opening_condition:
  "(state b = CLOSED \<longrightarrow>
      (state (recordFailure b err lat now) = OPEN \<longleftrightarrow>
         failureThreshold b \<le> int (failures (recordFailure b err lat now))
         \<and> volumeThreshold b \<le> int (length (callsInWindow (metrics (recordFailure b err lat now)))))
      \<and> (state (recordFailure b err lat now) \<noteq> OPEN \<longleftrightarrow> state (recordFailure b err lat now) = CLOSED)
      \<and> failures (recordFailure b err lat now) = failures b + 1
      \<and> callsInWindow (metrics (recordFailure b err lat now)) =
           filter (\<lambda>c. now - windowDuration b < timestamp c) (callsInWindow (metrics b) @
             [\<lparr>timestamp = now, success = False, latency = lat,
               error = (case err of None \<Rightarrow> None | Some e \<Rightarrow> message e)\<rparr>]))
   \<and> (0 < num_or wD 60000 \<and> now' < t3 + num_or tO 30000 \<longrightarrow>
        state (recordFailure (recordFailure (recordFailure
            (CircuitBreakerV2 \<lparr>opt_name = n, opt_failureThreshold = Some 3, opt_successThreshold = sT,
               opt_timeout = tO, opt_volumeThreshold = Some 1, opt_windowDuration = wD,
               opt_isFailure = f\<rparr>) e1 l1 t1) e2 l2 t2) e3 l3 t3) = OPEN
        \<and> \<not> fst (canExecute (recordFailure (recordFailure (recordFailure
            (CircuitBreakerV2 \<lparr>opt_name = n, opt_failureThreshold = Some 3, opt_successThreshold = sT,
               opt_timeout = tO, opt_volumeThreshold = Some 1, opt_windowDuration = wD,
               opt_isFailure = f\<rparr>) e1 l1 t1) e2 l2 t2) e3 l3 t3) now'))"
proof -
  have general: "(state (recordFailure b err lat now) = OPEN \<longleftrightarrow>
         failureThreshold b \<le> int (failures (recordFailure b err lat now))
         \<and> volumeThreshold b \<le> int (length (callsInWindow (metrics (recordFailure b err lat now)))))
      \<and> (state (recordFailure b err lat now) \<noteq> OPEN \<longleftrightarrow> state (recordFailure b err lat now) = CLOSED)
      \<and> failures (recordFailure b err lat now) = failures b + 1
      \<and> callsInWindow (metrics (recordFailure b err lat now)) =
           filter (\<lambda>c. now - windowDuration b < timestamp c) (callsInWindow (metrics b) @
             [\<lparr>timestamp = now, success = False, latency = lat,
               error = (case err of None \<Rightarrow> None | Some e \<Rightarrow> message e)\<rparr>])"
    if c: "state b = CLOSED"
    unfolding recordFailure_CLOSED(3,4) [OF c]
    by (auto simp: recordFailure_CLOSED(1) [OF c])
  define b0 where "b0 = CircuitBreakerV2 \<lparr>opt_name = n, opt_failureThreshold = Some 3, opt_successThreshold = sT,
               opt_timeout = tO, opt_volumeThreshold = Some 1, opt_windowDuration = wD,
               opt_isFailure = f\<rparr>"
  define b1 where "b1 = recordFailure b0 e1 l1 t1"
  define b2 where "b2 = recordFailure b1 e2 l2 t2"
  define b3 where "b3 = recordFailure b2 e3 l3 t3"
  have example: "state b3 = OPEN \<and> \<not> fst (canExecute b3 now')"
    if w: "0 < num_or wD 60000" and t: "now' < t3 + num_or tO 30000"
  proof -
    have s0: "state b0 = CLOSED" "failures b0 = 0" "failureThreshold b0 = 3" "volumeThreshold b0 = 1"
      "windowDuration b0 = num_or wD 60000" "timeout b0 = num_or tO 30000"
      by (simp_all add: b0_def CircuitBreakerV2_def num_or_def)
    have s1: "state b1 = CLOSED" "failures b1 = 1"
      unfolding b1_def using recordFailure_CLOSED(1,3) [OF s0(1), of e1 l1 t1] s0 by simp_all
    have c1: "failureThreshold b1 = 3" "volumeThreshold b1 = 1"
      "windowDuration b1 = num_or wD 60000" "timeout b1 = num_or tO 30000"
      unfolding b1_def using s0 by (simp_all add: recordFailure_config)
    have s2: "state b2 = CLOSED" "failures b2 = 2"
      unfolding b2_def using recordFailure_CLOSED(1,3) [OF s1(1), of e2 l2 t2] s1 c1 by simp_all
    have c2: "failureThreshold b2 = 3" "volumeThreshold b2 = 1"
      "windowDuration b2 = num_or wD 60000" "timeout b2 = num_or tO 30000"
      unfolding b2_def using c1 by (simp_all add: recordFailure_config)
    have s3: "state b3 = OPEN"
      unfolding b3_def using recordFailure_CLOSED(1) [OF s2(1), of e3 l3 t3] s2 c2 w by simp
    then have "nextAttemptTime b3 = Some (t3 + num_or tO 30000)"
      unfolding b3_def using recordFailure_CLOSED(2) [OF s2(1), of e3 l3 t3] c2 by simp
    with s3 t show ?thesis by (simp add: canExecute_def)
  qed
  from general example show ?thesis
    unfolding b3_def b2_def b1_def b0_def by blast
qed


lemma scenario_open_fields:
  "state scenario_open = OPEN" "nextAttemptTime scenario_open = Some 33000"
  "timeout scenario_open = 30000" "name scenario_open = ''default''"
  "failures scenario_open = 3" "rejectedCalls (metrics scenario_open) = 0"
  "isFailure scenario_open e"
  by (simp_all add: scenario_open_def scenario_options_def num_or_def str_or_def recordFailure_def
        shouldOpen_def cleanupMetrics_def CircuitBreakerV2_def transitionTo_def isTimeout_def Let_def)


theorem breaker_opening_condition_witness:
  "state scenario_open = OPEN
   \<and> \<not> fst (canExecute scenario_open 3000)
   \<and> state (recordFailure (recordFailure (CircuitBreakerV2 scenario_options) None 0 1000) None 0 2000) = CLOSED"
  using breaker_opening_condition [where
      b = "recordFailure (CircuitBreakerV2 scenario_options) None 0 1000" and err = None
      and lat = 0 and now = 2000 and wD = None and now' = 3000 and ?t3.0 = 3000 and tO = None
      and n = None and sT = None and f = None and ?e1.0 = None and ?l1.0 = 0 and ?t1.0 = 1000
      and ?e2.0 = None and ?l2.0 = 0 and ?t2.0 = 2000 and ?e3.0 = None and ?l3.0 = 0]
  by (simp add: scenario_open_def scenario_options_def num_or_def recordFailure_def shouldOpen_def
        cleanupMetrics_def CircuitBreakerV2_def transitionTo_def isTimeout_def Let_def)


lemma canExecute_OPEN_early:
  "state b = OPEN \<Longrightarrow> now < (case nextAttemptTime b of None \<Rightarrow> 0 | Some t \<Rightarrow> t) \<Longrightarrow>
   canExecute b now = (False, b)"
  by (simp add: canExecute_def)


lemma execute_rejected:
  assumes "canExecute b start = (False, b)"
  shows "execute b fn FbNull start finish w = (Inl (CircuitOpenError (name b)), recordRejection b, w)"
    and "execute b fn (FbValue v) start finish w = (Inr v, recordRejection b, w)"
    and "fst (snd (execute b fn fb start finish w)) = recordRejection b"
    and "execute b fn fb start finish w = execute b fn' fb start finish w"
  using assms
  by (auto simp: execute_def recordRejection_def Let_def split: fallback.splits prod.splits sum.splits)






text \<open>
  C5. While the state is \<open>OPEN\<close> and the time of the next attempt has not come,
  \<open>canExecute\<close> returns \<open>false\<close> without changing the breaker, and \<open>execute\<close> changes
  nothing but \<open>metrics.rejectedCalls\<close>, which grows by one: the failure and success
  counters, the state, the time of the next attempt, the window's call records and the
  historical call totals are the same as before.
\<close>

theorem breaker_rejection_frame:
  "state b = OPEN \<and> now < (case nextAttemptTime b of None \<Rightarrow> 0 | Some t \<Rightarrow> t) \<longrightarrow>
     canExecute b now = (False, b)
     \<and> fst (snd (execute b fn fb now finish w)) =
         b\<lparr>metrics := (metrics b)\<lparr>rejectedCalls := rejectedCalls (metrics b) + 1\<rparr>\<rparr>
     \<and> rejectedCalls (metrics (fst (snd (execute b fn fb now finish w)))) = rejectedCalls (metrics b) + 1
     \<and> failures (fst (snd (execute b fn fb now finish w))) = failures b
     \<and> successes (fst (snd (execute b fn fb now finish w))) = successes b
     \<and> consecutiveSuccesses (fst (snd (execute b fn fb now finish w))) = consecutiveSuccesses b
     \<and> state (fst (snd (execute b fn fb now finish w))) = state b
     \<and> nextAttemptTime (fst (snd (execute b fn fb now finish w))) = nextAttemptTime b
     \<and> callsInWindow (metrics (fst (snd (execute b fn fb now finish w)))) = callsInWindow (metrics b)
     \<and> failedCalls (metrics (fst (snd (execute b fn fb now finish w)))) = failedCalls (metrics b)
     \<and> successfulCalls (metrics (fst (snd (execute b fn fb now finish w)))) = successfulCalls (metrics b)
     \<and> totalCalls (metrics (fst (snd (execute b fn fb now finish w)))) = totalCalls (metrics b)"
proof
  assume h: "state b = OPEN \<and> now < (case nextAttemptTime b of None \<Rightarrow> 0 | Some t \<Rightarrow> t)"
  then have ce: "canExecute b now = (False, b)"
    by (simp add: canExecute_OPEN_early)
  have ex: "fst (snd (execute b fn fb now finish w)) = recordRejection b"
    by (rule execute_rejected(3) [OF ce])
  show "canExecute b now = (False, b)
     \<and> fst (snd (execute b fn fb now finish w)) =
         b\<lparr>metrics := (metrics b)\<lparr>rejectedCalls := rejectedCalls (metrics b) + 1\<rparr>\<rparr>
     \<and> rejectedCalls (metrics (fst (snd (execute b fn fb now finish w)))) = rejectedCalls (metrics b) + 1
     \<and> failures (fst (snd (execute b fn fb now finish w))) = failures b
     \<and> successes (fst (snd (execute b fn fb now finish w))) = successes b
     \<and> consecutiveSuccesses (fst (snd (execute b fn fb now finish w))) = consecutiveSuccesses b
     \<and> state (fst (snd (execute b fn fb now finish w))) = state b
     \<and> nextAttemptTime (fst (snd (execute b fn fb now finish w))) = nextAttemptTime b
     \<and> callsInWindow (metrics (fst (snd (execute b fn fb now finish w)))) = callsInWindow (metrics b)
     \<and> failedCalls (metrics (fst (snd (execute b fn fb now finish w)))) = failedCalls (metrics b)
     \<and> successfulCalls (metrics (fst (snd (execute b fn fb now finish w)))) = successfulCalls (metrics b)
     \<and> totalCalls (metrics (fst (snd (execute b fn fb now finish w)))) = totalCalls (metrics b)"
    unfolding ex by (simp add: ce recordRejection_def)
qed

theorem breaker_rejection_frame_witness:
  "canExecute scenario_open 3001 = (False, scenario_open)
   \<and> rejectedCalls (metrics (fst (snd (execute scenario_open scenario_call FbNull 3001 3002 0)))) = 1
   \<and> failures (fst (snd (execute scenario_open scenario_call FbNull 3001 3002 0))) = 3
   \<and> state (fst (snd (execute scenario_open scenario_call FbNull 3001 3002 0))) = OPEN"
  using breaker_rejection_frame [where b = scenario_open and now = 3001 and fn = scenario_call
      and fb = FbNull and finish = 3002 and w = 0]
  by (simp add: scenario_open_fields)

section \<open>Lookup cache: expiry and capacity\<close>

lemma evict_scan_min:
  "evict_scan xs (ok, oa) = (k', a') \<Longrightarrow>
   (\<forall>p \<in> set xs. below a' (lastAccess (snd p))) \<and> (\<forall>x. below oa x \<longrightarrow> below a' x)"
proof (induction xs arbitrary: ok oa)
  case Nil
  then show ?case by simp
next
  case (Cons p xs)
  obtain key entry where p: "p = (key, entry)" by (cases p)
  show ?case
  proof (cases "case oa of None \<Rightarrow> True | Some a \<Rightarrow> lastAccess entry < a")
    case True
    then have "evict_scan xs (Some key, Some (lastAccess entry)) = (k', a')"
      using Cons.prems p by simp
    from Cons.IH [OF this]
    have ih: "\<forall>p \<in> set xs. below a' (lastAccess (snd p))"
      "\<forall>x. below (Some (lastAccess entry)) x \<longrightarrow> below a' x" by simp_all
    from ih(2) have "below a' (lastAccess entry)" by (simp add: below_def)
    moreover have "below a' x" if "below oa x" for x
    proof -
      from that True have "below (Some (lastAccess entry)) x"
        by (cases oa) (simp_all add: below_def)
      with ih(2) show ?thesis by simp
    qed
    ultimately show ?thesis using ih(1) p by simp
  next
    case False
    then have "evict_scan xs (ok, oa) = (k', a')"
      using Cons.prems p by simp
    from Cons.IH [OF this]
    have ih: "\<forall>p \<in> set xs. below a' (lastAccess (snd p))"
      "\<forall>x. below oa x \<longrightarrow> below a' x" by simp_all
    from False have "below oa (lastAccess entry)"
      by (cases oa) (simp_all add: below_def)
    with ih(2) have "below a' (lastAccess entry)" by simp
    then show ?thesis using ih p by simp
  qed
qed

lemma evict_scan_key:
  "evict_scan xs (ok, oa) = (k', a') \<Longrightarrow>
   (k', a') = (ok, oa) \<or> (\<exists>p \<in> set xs. k' = Some (fst p) \<and> a' = Some (lastAccess (snd p)))"
proof (induction xs arbitrary: ok oa)
  case Nil
  then show ?case by simp
next
  case (Cons p xs)
  obtain key entry where p: "p = (key, entry)" by (cases p)
  show ?case
  proof (cases "case oa of None \<Rightarrow> True | Some a \<Rightarrow> lastAccess entry < a")
    case True
    then have "evict_scan xs (Some key, Some (lastAccess entry)) = (k', a')"
      using Cons.prems p by simp
    from Cons.IH [OF this] show ?thesis using p by auto
  next
    case False
    then have "evict_scan xs (ok, oa) = (k', a')"
      using Cons.prems p by simp
    from Cons.IH [OF this] show ?thesis by auto
  qed
qed

lemma evict_scan_oldest:
  assumes "xs \<noteq> []"
  obtains k e where "fst (evict_scan xs (None, None)) = Some k" "(k, e) \<in> set xs"
    "\<forall>p \<in> set xs. lastAccess e \<le> lastAccess (snd p)"
proof -
  obtain k' a' where r: "evict_scan xs (None, None) = (k', a')" by (cases "evict_scan xs (None, None)")
  from evict_scan_min [OF r] have m: "\<forall>p \<in> set xs. below a' (lastAccess (snd p))" by simp
  obtain p0 where "p0 \<in> set xs" using assms by (cases xs) auto
  with m have "below a' (lastAccess (snd p0))" by simp
  then have "a' \<noteq> None" by (cases a') (simp_all add: below_def)
  with evict_scan_key [OF r] obtain p where p: "p \<in> set xs" "k' = Some (fst p)" "a' = Some (lastAccess (snd p))"
    by auto
  have "\<forall>q \<in> set xs. lastAccess (snd p) \<le> lastAccess (snd q)"
    using m p(3) by (simp add: below_def)
  with p r that [of "fst p" "snd p"] show ?thesis by simp
qed


lemma evictOne_frame: "ttl (evictOne c) = ttl c \<and> maxSize (evictOne c) = maxSize c"
  by (simp add: evictOne_def split: option.splits)

lemma evictOne_full:
  assumes "distinct (map fst (cache c))" "[] \<notin> set (map fst (cache c))" "cache c \<noteq> []"
  obtains victim e where "fst (evict_scan (cache c) (None, None)) = Some victim"
    "map_of (cache c) victim = Some e"
    "\<forall>p \<in> set (cache c). lastAccess e \<le> lastAccess (snd p)"
    "cache (evictOne c) = AList.delete victim (cache c)"
    "Suc (length (cache (evictOne c))) = length (cache c)"
    "evictions (stats (evictOne c)) = evictions (stats c) + 1"
proof -
  from evict_scan_oldest [OF assms(3)] obtain k e where
    k: "fst (evict_scan (cache c) (None, None)) = Some k" "(k, e) \<in> set (cache c)"
      "\<forall>p \<in> set (cache c). lastAccess e \<le> lastAccess (snd p)" by blast
  have m: "map_of (cache c) k = Some e" using assms(1) k(2) by simp
  have "k \<noteq> []" using assms(2) k(2) by force
  then have ev: "cache (evictOne c) = AList.delete k (cache c)"
    "evictions (stats (evictOne c)) = evictions (stats c) + 1"
    using k(1) by (simp_all add: evictOne_def)
  have "Suc (length (cache (evictOne c))) = length (cache c)"
    unfolding ev using length_delete_present [OF assms(1) m] .
  with that k m ev show ?thesis by blast
qed

lemma cache_set_cache:
  "cache (cache_set c type key v customTtl now) =
     AList.update (generateKey type key) (new_entry c v customTtl now)
       (cache (if length (cache c) \<ge> maxSize c \<and> map_of (cache c) (generateKey type key) = None
               then evictOne c else c))"
  "maxSize (cache_set c type key v customTtl now) = maxSize c"
  "ttl (cache_set c type key v customTtl now) = ttl c"
  by (simp_all add: cache_set_def new_entry_def Let_def evictOne_frame)

lemma generateKey_nonempty: "generateKey type key \<noteq> []"
  by (simp add: generateKey_def)

lemma cache_inv_set:
  assumes "cache_inv c"
  shows "cache_inv (cache_set c type key v customTtl now)"
proof -
  let ?k = "generateKey type key"
  from assms have d: "distinct (map fst (cache c))" and ne: "[] \<notin> set (map fst (cache c))"
    and pos: "0 < maxSize c" and le: "length (cache c) \<le> maxSize c"
    by (simp_all add: cache_inv_def)
  show ?thesis
  proof (cases "length (cache c) \<ge> maxSize c \<and> map_of (cache c) ?k = None")
    case True
    then have "cache c \<noteq> []" using pos by auto
    from evictOne_full [OF d ne this] obtain victim e where
      ev: "cache (evictOne c) = AList.delete victim (cache c)"
        "Suc (length (cache (evictOne c))) = length (cache c)" by metis
    have c': "cache (cache_set c type key v customTtl now) =
        AList.update ?k (new_entry c v customTtl now) (AList.delete victim (cache c))"
      using True by (simp add: cache_set_cache(1) ev(1))
    have "distinct (map fst (AList.delete victim (cache c)))"
      using d by (rule AList.distinct_delete)
    then have 1: "distinct (map fst (cache (cache_set c type key v customTtl now)))"
      unfolding c' by (rule AList.distinct_update)
    have 2: "[] \<notin> set (map fst (cache (cache_set c type key v customTtl now)))"
      unfolding c' keys_update using ne keys_delete [of victim "cache c"] generateKey_nonempty [of type key]
      by auto
    have "length (cache (cache_set c type key v customTtl now)) \<le> Suc (length (AList.delete victim (cache c)))"
      unfolding c' by (rule length_update_le)
    also have "\<dots> = length (cache c)" using ev by simp
    finally have 3: "length (cache (cache_set c type key v customTtl now)) \<le> maxSize c"
      using le by simp
    from 1 2 3 pos show ?thesis by (simp add: cache_inv_def cache_set_cache(2))
  next
    case False
    then have c': "cache (cache_set c type key v customTtl now) =
        AList.update ?k (new_entry c v customTtl now) (cache c)"
      by (simp only: cache_set_cache(1) if_False)
    have 1: "distinct (map fst (cache (cache_set c type key v customTtl now)))"
      unfolding c' using d by (rule AList.distinct_update)
    have 2: "[] \<notin> set (map fst (cache (cache_set c type key v customTtl now)))"
      unfolding c' keys_update using ne generateKey_nonempty [of type key] by auto
    have 3: "length (cache (cache_set c type key v customTtl now)) \<le> maxSize c"
    proof (cases "map_of (cache c) ?k = None")
      case True
      with False have "length (cache c) < maxSize c" by simp
      then show ?thesis unfolding c' using length_update_le [of ?k "new_entry c v customTtl now" "cache c"]
        by simp
    next
      case False
      then show ?thesis unfolding c' using le by (simp add: length_update_old)
    qed
    from 1 2 3 pos show ?thesis by (simp add: cache_inv_def cache_set_cache(2))
  qed
qed

lemma cache_inv_cache_upd:
  assumes "cache_inv c" "distinct (map fst al)" "set (map fst al) \<subseteq> set (map fst (cache c))"
    "length al \<le> length (cache c)"
  shows "cache_inv (c\<lparr>cache := al, stats := st\<rparr>)" "cache_inv (c\<lparr>cache := al\<rparr>)"
    "cache_inv (c\<lparr>stats := st, cache := al\<rparr>)"
  using assms by (auto simp: cache_inv_def)

lemma cache_inv_stats: "cache_inv c \<Longrightarrow> cache_inv (c\<lparr>stats := st\<rparr>)"
  by (simp add: cache_inv_def)

lemma cache_inv_get:
  assumes inv: "cache_inv c"
  shows "cache_inv (snd (cache_get c type key now))"
proof -
  let ?k = "generateKey type key"
  from inv have d: "distinct (map fst (cache c))" by (simp add: cache_inv_def)
  show ?thesis
  proof (cases "map_of (cache c) ?k")
    case None
    then show ?thesis using inv by (simp add: cache_get_def Let_def cache_inv_stats)
  next
    case (Some entry)
    show ?thesis
    proof (cases "now > expiresAt entry")
      case True
      have "cache_inv (c\<lparr>cache := AList.delete ?k (cache c),
              stats := (stats c)\<lparr>misses := misses (stats c) + 1\<rparr>\<rparr>)"
        using inv AList.distinct_delete [OF d] keys_delete AList.length_delete_le
        by (rule cache_inv_cache_upd(1))
      then show ?thesis using Some True by (simp add: cache_get_def Let_def)
    next
      case False
      let ?e = "entry\<lparr>entryHits := entryHits entry + 1, lastAccess := now\<rparr>"
      have in_keys: "?k \<in> set (map fst (cache c))"
        using Some by (metis map_of_eq_None_iff option.distinct(1) set_map)
      have "cache_inv (c\<lparr>stats := (stats c)\<lparr>hits := hits (stats c) + 1\<rparr>,
              cache := AList.update ?k ?e (cache c)\<rparr>)"
      proof (rule cache_inv_cache_upd(3) [OF inv])
        show "distinct (map fst (AList.update ?k ?e (cache c)))"
          using d by (rule AList.distinct_update)
        show "set (map fst (AList.update ?k ?e (cache c))) \<subseteq> set (map fst (cache c))"
          unfolding keys_update using in_keys by simp
        show "length (AList.update ?k ?e (cache c)) \<le> length (cache c)"
          using Some by (simp add: length_update_old)
      qed
      then show ?thesis using Some False by (simp add: cache_get_def Let_def)
    qed
  qed
qed

lemma cache_inv_filter:
  assumes inv: "cache_inv c"
  shows "cache_inv (c\<lparr>cache := filter P (cache c)\<rparr>)"
proof (rule cache_inv_cache_upd(2) [OF inv])
  show "distinct (map fst (filter P (cache c)))"
    using inv by (simp add: cache_inv_def distinct_map_filter)
  show "set (map fst (filter P (cache c))) \<subseteq> set (map fst (cache c))"
    by auto
  show "length (filter P (cache c)) \<le> length (cache c)"
    by (rule length_filter_le)
qed

lemma cache_inv_step: "cache_inv c \<Longrightarrow> cache_inv (cache_step c op)"
proof (cases op)
  case (Get type key now)
  assume "cache_inv c"
  then show ?thesis using Get by (simp add: cache_inv_get)
next
  case (Set type key v customTtl now)
  assume "cache_inv c"
  then show ?thesis using Set by (simp add: cache_inv_set)
next
  case (Invalidate type key)
  assume "cache_inv c"
  then show ?thesis using Invalidate
    by (simp add: invalidate_def AList.delete_eq Let_def cache_inv_filter)
next
  case (InvalidateType type)
  assume "cache_inv c"
  then show ?thesis using InvalidateType
    by (simp add: invalidateType_def Let_def cache_inv_filter)
next
  case Clear
  assume "cache_inv c"
  then show ?thesis using Clear by (simp add: clear_def cache_inv_def)
next
  case (CacheCleanup now)
  assume "cache_inv c"
  then show ?thesis using CacheCleanup
    by (simp add: cache_cleanup_def cache_inv_filter)
qed

lemma cache_inv_run: "cache_inv c \<Longrightarrow> cache_inv (cache_run c ops)"
  unfolding cache_run_def
  by (induction ops arbitrary: c) (simp_all add: cache_inv_step)

lemma cache_inv_new: "cache_inv (BillerSearchCache options)"
  by (simp add: cache_inv_def BillerSearchCache_def split: option.splits)

lemma cache_set_lookup:
  "map_of (cache (cache_set c type key v customTtl now)) (generateKey type key) =
     Some (new_entry c v customTtl now)"
  unfolding cache_set_cache(1) by (simp add: AList.update_conv')

lemma cache_get_present:
  assumes "map_of (cache c) (generateKey type key) = Some entry"
  shows "now \<le> expiresAt entry \<Longrightarrow> fst (cache_get c type key now) = Some (val entry)"
    and "now \<le> expiresAt entry \<Longrightarrow>
           map_of (cache (snd (cache_get c type key now))) (generateKey type key) =
             Some (entry\<lparr>entryHits := entryHits entry + 1, lastAccess := now\<rparr>)"
    and "expiresAt entry < now \<Longrightarrow> fst (cache_get c type key now) = None"
    and "expiresAt entry < now \<Longrightarrow>
           cache (snd (cache_get c type key now)) = AList.delete (generateKey type key) (cache c)"
    and "expiresAt entry < now \<Longrightarrow>
           map_of (cache (snd (cache_get c type key now))) (generateKey type key) = None"
  using assms by (simp_all add: cache_get_def Let_def AList.update_conv' AList.delete_conv')

text \<open>
  C7. After \<open>set(type, key, value, ttl)\<close> at time \<open>now\<close> the entry expires at \<open>now\<close> plus the
  effective ttl (\<open>customTtl || this.ttl\<close>). \<open>get(type, key)\<close> returns the value at every time
  up to the expiry, and after the expiry it returns \<open>null\<close> and the key is no longer in
  the cache. The same holds for any entry present in the cache: \<open>get\<close> compares the
  current time with the entry's \<open>expiresAt\<close>, a hit only touches \<open>hits\<close> and
  \<open>lastAccess\<close>, and a miss on an expired entry deletes exactly that key. With
  \<open>ttl = 100\<close>, the value is returned immediately and is a miss 150 ms later.
\<close>

theorem cache_ttl_expiry:
  "(now' \<le> now + num_or customTtl (ttl c) \<longrightarrow>
      fst (cache_get (cache_set c type key v customTtl now) type key now') = Some v)
   \<and> (now + num_or customTtl (ttl c) < now' \<longrightarrow>
      fst (cache_get (cache_set c type key v customTtl now) type key now') = None
      \<and> map_of (cache (snd (cache_get (cache_set c type key v customTtl now) type key now')))
           (generateKey type key) = None)
   \<and> (map_of (cache c) (generateKey type key) = Some entry \<and> now \<le> expiresAt entry \<longrightarrow>
      fst (cache_get c type key now) = Some (val entry)
      \<and> map_of (cache (snd (cache_get c type key now))) (generateKey type key) =
           Some (entry\<lparr>entryHits := entryHits entry + 1, lastAccess := now\<rparr>))
   \<and> (map_of (cache c) (generateKey type key) = Some entry \<and> expiresAt entry < now \<longrightarrow>
      fst (cache_get c type key now) = None
      \<and> cache (snd (cache_get c type key now)) = AList.delete (generateKey type key) (cache c)
      \<and> map_of (cache (snd (cache_get c type key now))) (generateKey type key) = None)
   \<and> fst (cache_get (cache_set c type key v (Some 100) now) type key now) = Some v
   \<and> fst (cache_get (snd (cache_get (cache_set c type key v (Some 100) now) type key now))
           type key (now + 150)) = None"
proof -
  let ?k = "generateKey type key"
  have fresh: "fst (cache_get (cache_set c type key v customTtl now) type key now') = Some v"
    if "now' \<le> now + num_or customTtl (ttl c)" for customTtl now'
    using cache_get_present(1) [OF cache_set_lookup, of now' c v customTtl now] that
    by (simp add: new_entry_def)
  have stale: "fst (cache_get (cache_set c type key v customTtl now) type key now') = None
      \<and> map_of (cache (snd (cache_get (cache_set c type key v customTtl now) type key now'))) ?k = None"
    if "now + num_or customTtl (ttl c) < now'"
    using cache_get_present(3,5) [OF cache_set_lookup, of c v customTtl now now'] that
    by (simp add: new_entry_def)
  have ex1: "fst (cache_get (cache_set c type key v (Some 100) now) type key now) = Some v"
    by (rule fresh) (simp add: num_or_def)
  have "map_of (cache (snd (cache_get (cache_set c type key v (Some 100) now) type key now))) ?k =
      Some ((new_entry c v (Some 100) now)\<lparr>entryHits := entryHits (new_entry c v (Some 100) now) + 1,
              lastAccess := now\<rparr>)"
    by (rule cache_get_present(2) [OF cache_set_lookup]) (simp add: new_entry_def num_or_def)
  from cache_get_present(3) [OF this, of "now + 150"]
  have ex2: "fst (cache_get (snd (cache_get (cache_set c type key v (Some 100) now) type key now))
           type key (now + 150)) = None"
    by (simp add: new_entry_def num_or_def)
  from fresh [of now' customTtl] stale cache_get_present [of c type key entry now] ex1 ex2
  show ?thesis by blast
qed

theorem cache_ttl_expiry_witness:
  "fst (cache_get (cache_set (BillerSearchCache \<lparr>opt_ttl = None, opt_maxSize = None\<rparr>)
          ''comprobante'' ''A-1'' (7::nat) (Some 100) 1000) ''comprobante'' ''A-1'' 1100) = Some 7
   \<and> fst (cache_get (cache_set (BillerSearchCache \<lparr>opt_ttl = None, opt_maxSize = None\<rparr>)
          ''comprobante'' ''A-1'' (7::nat) (Some 100) 1000) ''comprobante'' ''A-1'' 1150) = None
   \<and> cache (snd (cache_get (cache_set (BillerSearchCache \<lparr>opt_ttl = None, opt_maxSize = None\<rparr>)
          ''comprobante'' ''A-1'' (7::nat) (Some 100) 1000) ''comprobante'' ''A-1'' 1150)) = []
   \<and> map_of (cache (snd (cache_get (cache_set (BillerSearchCache \<lparr>opt_ttl = None, opt_maxSize = None\<rparr>)
          ''comprobante'' ''A-1'' (7::nat) (Some 100) 1000) ''comprobante'' ''A-1'' 1050)))
        ''comprobante:A-1''
       = Some \<lparr>val = 7, createdAt = 1000, expiresAt = 1100, lastAccess = 1050, entryHits = 1\<rparr>"
proof -
  let ?c = "BillerSearchCache \<lparr>opt_ttl = None, opt_maxSize = None\<rparr> :: nat search_cache"
  let ?s = "cache_set ?c ''comprobante'' ''A-1'' 7 (Some 100) 1000"
  let ?e = "\<lparr>val = 7::nat, createdAt = 1000, expiresAt = 1100, lastAccess = 1000, entryHits = 0\<rparr>"
  have s: "cache ?s = [(''comprobante:A-1'', ?e)]"
    by (simp add: cache_set_def BillerSearchCache_def generateKey_def num_or_def Let_def)
  note hit = cache_ttl_expiry [where c = ?c and type = "''comprobante''" and key = "''A-1''"
      and v = 7 and customTtl = "Some 100" and now = 1000 and now' = 1100 and entry = ?e]
  note miss = cache_ttl_expiry [where c = ?c and type = "''comprobante''" and key = "''A-1''"
      and v = 7 and customTtl = "Some 100" and now = 1000 and now' = 1150 and entry = ?e]
  note gone = cache_ttl_expiry [where c = ?s and type = "''comprobante''" and key = "''A-1''"
      and v = 7 and customTtl = "Some 100" and now = 1150 and now' = 1150 and entry = ?e]
  have 1: "fst (cache_get ?s ''comprobante'' ''A-1'' 1100) = Some 7"
    using hit by (simp add: num_or_def)
  have 2: "fst (cache_get ?s ''comprobante'' ''A-1'' 1150) = None"
    using miss by (simp add: num_or_def)
  have 3: "cache (snd (cache_get ?s ''comprobante'' ''A-1'' 1150)) = []"
    using gone by (simp add: s generateKey_def AList.delete_eq)
  note touch = cache_ttl_expiry [where c = ?s and type = "''comprobante''" and key = "''A-1''"
      and v = 7 and customTtl = "Some 100" and now = 1050 and now' = 1050 and entry = ?e]
  have 4: "map_of (cache (snd (cache_get ?s ''comprobante'' ''A-1'' 1050))) ''comprobante:A-1''
       = Some \<lparr>val = 7, createdAt = 1000, expiresAt = 1100, lastAccess = 1050, entryHits = 1\<rparr>"
    using touch by (simp add: s generateKey_def)
  from 1 2 3 4 show ?thesis by simp
qed

lemma cache_run_maxSize: "maxSize (cache_run c ops) = maxSize c"
  unfolding cache_run_def
proof (induction ops arbitrary: c)
  case Nil
  then show ?case by simp
next
  case (Cons op ops)
  have "maxSize (cache_step c op) = maxSize c"
    by (cases op)
       (simp_all add: cache_get_def cache_set_cache(2) invalidate_def invalidateType_def clear_def
          cache_cleanup_def Let_def split: option.splits)
  with Cons.IH [of "cache_step c op"] show ?case by simp
qed

text \<open>
  C8. In every state reachable from a new cache the number of entries is at most
  \<open>maxSize\<close>, and \<open>set\<close> preserves the bound. When \<open>set\<close> inserts a new key into a cache
  holding exactly \<open>maxSize\<close> entries, the scan of \<open>_evictOne\<close> picks an entry whose
  \<open>lastAccess\<close> is the least of all entries, that entry and no other is removed, the new
  entry is appended, the size is \<open>maxSize\<close> again and the eviction counter grows by one.
\<close>

theorem cache_capacity_lru:
  "length (cache (cache_run (BillerSearchCache options) ops))
      \<le> maxSize (BillerSearchCache options :: 'v search_cache)
   \<and> cache_inv (cache_run (BillerSearchCache options :: 'v search_cache) ops)
   \<and> (cache_inv (c :: 'v search_cache) \<longrightarrow>
        cache_inv (cache_set c type key v customTtl now)
        \<and> length (cache (cache_set c type key v customTtl now)) \<le> maxSize c)
   \<and> (cache_inv c \<and> length (cache c) = maxSize c \<and> map_of (cache c) (generateKey type key) = None \<longrightarrow>
        (case fst (evict_scan (cache c) (None, None)) of
           None \<Rightarrow> False
         | Some victim \<Rightarrow>
             (case map_of (cache c) victim of
                None \<Rightarrow> False
              | Some e \<Rightarrow>
                  list_all (\<lambda>p. lastAccess e \<le> lastAccess (snd p)) (cache c)
                  \<and> cache (cache_set c type key v customTtl now) =
                      AList.delete victim (cache c)
                        @ [(generateKey type key, new_entry c v customTtl now)]
                  \<and> length (cache (cache_set c type key v customTtl now)) = maxSize c
                  \<and> evictions (stats (cache_set c type key v customTtl now)) = evictions (stats c) + 1)))"
proof -
  let ?k = "generateKey type key"
  have reach: "cache_inv (cache_run (BillerSearchCache options :: 'v search_cache) ops)"
    using cache_inv_new by (rule cache_inv_run)
  then have bound: "length (cache (cache_run (BillerSearchCache options) ops))
      \<le> maxSize (BillerSearchCache options :: 'v search_cache)"
    by (simp add: cache_inv_def cache_run_maxSize)
  have step: "cache_inv (cache_set c type key v customTtl now)
        \<and> length (cache (cache_set c type key v customTtl now)) \<le> maxSize c"
    if "cache_inv c"
    using cache_inv_set [OF that, of type key v customTtl now]
    by (simp add: cache_inv_def cache_set_cache(2))
  have evict: "case fst (evict_scan (cache c) (None, None)) of
           None \<Rightarrow> False
         | Some victim \<Rightarrow>
             (case map_of (cache c) victim of
                None \<Rightarrow> False
              | Some e \<Rightarrow>
                  list_all (\<lambda>p. lastAccess e \<le> lastAccess (snd p)) (cache c)
                  \<and> cache (cache_set c type key v customTtl now) =
                      AList.delete victim (cache c)
                        @ [(generateKey type key, new_entry c v customTtl now)]
                  \<and> length (cache (cache_set c type key v customTtl now)) = maxSize c
                  \<and> evictions (stats (cache_set c type key v customTtl now)) = evictions (stats c) + 1)"
    if h: "cache_inv c" "length (cache c) = maxSize c" "map_of (cache c) ?k = None"
  proof -
    from h(1) have d: "distinct (map fst (cache c))" and ne: "[] \<notin> set (map fst (cache c))"
      and pos: "0 < maxSize c" by (simp_all add: cache_inv_def)
    from pos h(2) have "cache c \<noteq> []" by auto
    from evictOne_full [OF d ne this] obtain victim e where
      ev: "fst (evict_scan (cache c) (None, None)) = Some victim"
        "map_of (cache c) victim = Some e"
        "\<forall>p \<in> set (cache c). lastAccess e \<le> lastAccess (snd p)"
        "cache (evictOne c) = AList.delete victim (cache c)"
        "Suc (length (cache (evictOne c))) = length (cache c)"
        "evictions (stats (evictOne c)) = evictions (stats c) + 1" by metis
    have gone: "map_of (AList.delete victim (cache c)) ?k = None"
      using h(3) by (simp add: AList.delete_conv')
    have c': "cache (cache_set c type key v customTtl now) =
        AList.delete victim (cache c) @ [(?k, new_entry c v customTtl now)]"
      using h(2,3) by (simp add: cache_set_cache(1) ev(4) update_new_append [OF gone])
    have len: "length (cache (cache_set c type key v customTtl now)) = maxSize c"
      unfolding c' using ev(4,5) h(2) by simp
    have evs: "evictions (stats (cache_set c type key v customTtl now)) = evictions (stats c) + 1"
      using h(2,3) ev(6) by (simp add: cache_set_def Let_def)
    from ev(3) have "list_all (\<lambda>p. lastAccess e \<le> lastAccess (snd p)) (cache c)"
      by (simp add: list_all_iff)
    with c' len evs show ?thesis by (simp add: ev(1,2))
  qed
  from bound reach step evict show ?thesis by blast
qed

theorem cache_capacity_lru_witness:
  "map fst (cache (cache_run (BillerSearchCache \<lparr>opt_ttl = None, opt_maxSize = Some 2\<rparr>)
      [Set ''t'' ''a'' (11::nat) None 10, Set ''t'' ''b'' 22 None 20, Get ''t'' ''a'' 30,
       Set ''t'' ''c'' 33 None 40])) = [''t:a'', ''t:c'']
   \<and> length (cache (cache_run (BillerSearchCache \<lparr>opt_ttl = None, opt_maxSize = Some 2\<rparr>)
      [Set ''t'' ''a'' (11::nat) None 10, Set ''t'' ''b'' 22 None 20, Get ''t'' ''a'' 30,
       Set ''t'' ''c'' 33 None 40])) \<le> 2"
proof -
  let ?init = "BillerSearchCache \<lparr>opt_ttl = None, opt_maxSize = Some 2\<rparr> :: nat search_cache"
  let ?c = "cache_run ?init [Set ''t'' ''a'' 11 None 10, Set ''t'' ''b'' 22 None 20, Get ''t'' ''a'' 30]"
  have c: "cache ?c =
     [(''t:a'', \<lparr>val = 11, createdAt = 10, expiresAt = 300010, lastAccess = 30, entryHits = 1\<rparr>),
      (''t:b'', \<lparr>val = 22, createdAt = 20, expiresAt = 300020, lastAccess = 20, entryHits = 0\<rparr>)]"
    "maxSize ?c = 2"
    by (simp_all add: cache_run_def cache_set_def cache_get_def BillerSearchCache_def generateKey_def
          num_or_def Let_def)
  have inv: "cache_inv ?c" by (simp add: cache_inv_def c)
  note t = cache_capacity_lru [where options = "\<lparr>opt_ttl = None, opt_maxSize = Some 2\<rparr>"
      and ops = "[Set ''t'' ''a'' (11::nat) None 10, Set ''t'' ''b'' 22 None 20, Get ''t'' ''a'' 30,
       Set ''t'' ''c'' 33 None 40]" and c = ?c and type = "''t''" and key = "''c''" and v = 33
      and customTtl = None and now = 40]
  have run: "cache_run ?init [Set ''t'' ''a'' 11 None 10, Set ''t'' ''b'' 22 None 20, Get ''t'' ''a'' 30,
       Set ''t'' ''c'' 33 None 40] = cache_set ?c ''t'' ''c'' 33 None 40"
    by (simp add: cache_run_def)
  have 1: "map fst (cache (cache_set ?c ''t'' ''c'' 33 None 40)) = [''t:a'', ''t:c'']"
    using t inv by (simp add: c generateKey_def AList.delete_eq)
  have 2: "length (cache (cache_run ?init [Set ''t'' ''a'' 11 None 10, Set ''t'' ''b'' 22 None 20,
       Get ''t'' ''a'' 30, Set ''t'' ''c'' 33 None 40])) \<le> 2"
    using t by (simp add: BillerSearchCache_def)
  from 1 2 show ?thesis unfolding run by simp
qed

section \<open>Error store: retention\<close>

lemma newest_first_set: "set (newest_first xs) = set xs" "length (newest_first xs) = length xs"
  by (simp_all add: newest_first_def)

lemma unresolved_newest_first:
  "set (unresolved_of (newest_first xs)) = set (unresolved_of xs)"
  "length (unresolved_of (newest_first xs)) = length (unresolved_of xs)"
  "set (resolved_of (newest_first xs)) = set (resolved_of xs)"
  "length (resolved_of (newest_first xs)) = length (resolved_of xs)"
  by (simp_all add: unresolved_of_def resolved_of_def newest_first_def filter_sort)

lemma split_length:
  "length (unresolved_of xs) + length (resolved_of xs) = length xs"
  by (induction xs) (auto simp: unresolved_of_def resolved_of_def)

lemma slice_to_nat: "slice_to (int n) xs = take n xs"
  by (simp add: slice_to_def)

lemma resolved_sorted:
  "sorted (map (\<lambda>p. - timestampMs (snd p)) (resolved_of (newest_first xs)))"
  unfolding resolved_of_def newest_first_def
  by (rule sorted_filter) (rule sorted_sort_key)

lemma sorted_take_drop:
  assumes "sorted (map f xs)" "p \<in> set (take n xs)" "q \<in> set (drop n xs)"
  shows "f p \<le> f q"
proof -
  have "sorted (map f (take n xs) @ map f (drop n xs))"
    using assms(1) by (simp flip: map_append)
  then show ?thesis using assms(2,3) by (auto simp: sorted_append)
qed

lemma error_cleanup_errors:
  "errors (error_cleanup s) =
     (if length (errors s) \<le> maxErrors s then errors s
      else slice_to (int (maxErrors s))
             (unresolved_of (newest_first (errors s)) @
              slice_to (int (maxErrors s) - int (length (unresolved_of (errors s))))
                (resolved_of (newest_first (errors s)))))"
  "maxErrors (error_cleanup s) = maxErrors s"
  by (simp_all add: error_cleanup_def Let_def unresolved_of_def resolved_of_def
        unresolved_newest_first(2) [unfolded unresolved_of_def])

lemma cleanup_room:
  assumes big: "maxErrors s < length (errors s)"
    and u: "length (unresolved_of (errors s)) \<le> maxErrors s"
  shows "errors (error_cleanup s) =
       unresolved_of (newest_first (errors s)) @
       take (maxErrors s - length (unresolved_of (errors s))) (resolved_of (newest_first (errors s)))"
proof -
  let ?U = "unresolved_of (newest_first (errors s))"
  let ?R = "resolved_of (newest_first (errors s))"
  let ?n = "maxErrors s - length (unresolved_of (errors s))"
  have inner: "slice_to (int (maxErrors s) - int (length (unresolved_of (errors s)))) ?R = take ?n ?R"
    using u by (simp add: slice_to_def nat_diff_distrib')
  have "length (?U @ take ?n ?R) \<le> maxErrors s"
    using u by (simp add: unresolved_newest_first(2))
  then have outer: "slice_to (int (maxErrors s)) (?U @ take ?n ?R) = ?U @ take ?n ?R"
    unfolding slice_to_nat by (rule take_all)
  show ?thesis using big by (simp add: error_cleanup_errors(1) inner outer)
qed

lemma cleanup_overflow:
  assumes u: "maxErrors s < length (unresolved_of (errors s))"
  shows "errors (error_cleanup s) = take (maxErrors s) (unresolved_of (newest_first (errors s)))"
proof -
  let ?U = "unresolved_of (newest_first (errors s))"
  let ?R = "resolved_of (newest_first (errors s))"
  have "length (unresolved_of (errors s)) \<le> length (errors s)"
    using split_length [of "errors s"] by simp
  with u have big: "maxErrors s < length (errors s)" by simp
  have "slice_to (int (maxErrors s)) (?U @ ys) = take (maxErrors s) ?U" for ys
    using u by (simp add: slice_to_nat unresolved_newest_first(2))
  then show ?thesis using big by (simp add: error_cleanup_errors(1))
qed

lemma cleanup_bound: "length (errors (error_cleanup s)) \<le> maxErrors s"
proof (cases "length (errors s) \<le> maxErrors s")
  case True
  then show ?thesis by (simp add: error_cleanup_errors(1))
next
  case False
  have "length (take (maxErrors s) ys) \<le> maxErrors s" for ys :: "(string \<times> 'a error_entry) list"
    by simp
  then show ?thesis using False unfolding error_cleanup_errors(1) slice_to_nat
    by (simp only: if_False)
qed


text \<open>
  C6. The claim, like the comment above the last step of \<open>_cleanup\<close> (keep all the
  unresolved entries, plus the most recent resolved ones up to \<open>maxErrors\<close>), says that
  every unresolved entry survives cleanup. The code does not do that: the list it keeps
  ends with \<open>.slice(0, this.maxErrors)\<close>, which cuts the unresolved entries too. On a new
  store with \<open>maxErrors = 2\<close>, after \<open>recordError\<close> has run three times and nothing has been
  resolved, the first entry, present and unresolved before the third call, is no longer
  in the store: only the two newest are.
\<close>

theorem error_retention_failing_input:
  "map_of (errors (snd (recordError (snd (recordError (ErrorStore (Some 2) [])
       ''err-a'' () 1)) ''err-b'' () 2))) ''err-a''
     = Some \<lparr>errorId = ''err-a'', timestampMs = 1, detail = (), resolved = False,
              resolution = None, resolvedAt = None, resolvedBy = None\<rparr>
   \<and> map fst (errors (snd (recordError (snd (recordError (snd (recordError (ErrorStore (Some 2) [])
       ''err-a'' () 1)) ''err-b'' () 2)) ''err-c'' () 3))) = [''err-c'', ''err-b'']"
  by (simp add: recordError_def error_cleanup_def ErrorStore_def newest_first_def slice_to_def Let_def)

text \<open>
  Where \<open>_cleanup\<close> does keep the unresolved entries. It does nothing while the store holds
  at most \<open>maxErrors\<close> entries and never leaves more than \<open>maxErrors\<close>. When the store
  exceeds \<open>maxErrors\<close> and at most \<open>maxErrors\<close> entries are unresolved, every unresolved
  entry is kept, followed by the newest resolved entries that still fit: a resolved entry
  that is evicted is at least as old as every resolved entry that is kept. When more than
  \<open>maxErrors\<close> entries are unresolved, the result is the \<open>maxErrors\<close> newest unresolved
  entries, which is the case of the theorem above.
\<close>

lemma error_cleanup_behaviour:
  "(length (errors s) \<le> maxErrors s \<longrightarrow> error_cleanup s = s)
   \<and> (maxErrors s < length (errors s) \<and> length (unresolved_of (errors s)) \<le> maxErrors s \<longrightarrow>
        errors (error_cleanup s) =
          unresolved_of (newest_first (errors s)) @
          take (maxErrors s - length (unresolved_of (errors s))) (resolved_of (newest_first (errors s)))
        \<and> set (unresolved_of (errors s)) \<subseteq> set (errors (error_cleanup s))
        \<and> (\<forall>p \<in> set (resolved_of (errors (error_cleanup s))).
             \<forall>q \<in> set (resolved_of (errors s)) - set (errors (error_cleanup s)).
               timestampMs (snd q) \<le> timestampMs (snd p)))
   \<and> (maxErrors s < length (unresolved_of (errors s)) \<longrightarrow>
        errors (error_cleanup s) = take (maxErrors s) (unresolved_of (newest_first (errors s))))
   \<and> length (errors (error_cleanup s)) \<le> maxErrors s
   \<and> (map_of (errors s) newId = None \<and> length (errors s) \<le> maxErrors s
        \<and> resolved_of (errors s) \<noteq> [] \<longrightarrow>
        set (unresolved_of (errors s)) \<subseteq> set (errors (snd (recordError s newId d now)))
        \<and> (newId, \<lparr>errorId = newId, timestampMs = now, detail = d, resolved = False,
                   resolution = None, resolvedAt = None, resolvedBy = None\<rparr>)
            \<in> set (errors (snd (recordError s newId d now))))"
proof -
  have small: "error_cleanup s = s" if "length (errors s) \<le> maxErrors s"
    using that by (simp add: error_cleanup_def)
  have room: "errors (error_cleanup s) =
          unresolved_of (newest_first (errors s)) @
          take (maxErrors s - length (unresolved_of (errors s))) (resolved_of (newest_first (errors s)))
        \<and> set (unresolved_of (errors s)) \<subseteq> set (errors (error_cleanup s))
        \<and> (\<forall>p \<in> set (resolved_of (errors (error_cleanup s))).
             \<forall>q \<in> set (resolved_of (errors s)) - set (errors (error_cleanup s)).
               timestampMs (snd q) \<le> timestampMs (snd p))"
    if h: "maxErrors s < length (errors s)" "length (unresolved_of (errors s)) \<le> maxErrors s"
    for s :: "'a error_store"
  proof -
    let ?U = "unresolved_of (newest_first (errors s))"
    let ?R = "resolved_of (newest_first (errors s))"
    let ?n = "maxErrors s - length (unresolved_of (errors s))"
    have eq: "errors (error_cleanup s) = ?U @ take ?n ?R"
      using h by (rule cleanup_room)
    have keep: "set (unresolved_of (errors s)) \<subseteq> set (errors (error_cleanup s))"
      unfolding eq by (simp add: unresolved_newest_first(1))
    have old: "timestampMs (snd q) \<le> timestampMs (snd p)"
      if p: "p \<in> set (resolved_of (errors (error_cleanup s)))"
        and q: "q \<in> set (resolved_of (errors s)) - set (errors (error_cleanup s))" for p q
    proof -
      from p have "p \<in> set (take ?n ?R)"
        unfolding eq by (auto simp: resolved_of_def unresolved_of_def)
      moreover from q have "q \<in> set ?R" "q \<notin> set (take ?n ?R)"
        unfolding eq by (simp_all add: unresolved_newest_first(3))
      then have "q \<in> set (drop ?n ?R)"
        using append_take_drop_id [of ?n ?R] by (metis Un_iff set_append)
      ultimately have "- timestampMs (snd p) \<le> - timestampMs (snd q)"
        using sorted_take_drop [OF resolved_sorted] by blast
      then show ?thesis by simp
    qed
    from eq keep old show ?thesis by blast
  qed
  have over: "errors (error_cleanup s) = take (maxErrors s) (unresolved_of (newest_first (errors s)))"
    if "maxErrors s < length (unresolved_of (errors s))"
    using that by (rule cleanup_overflow)
  have rec: "set (unresolved_of (errors s)) \<subseteq> set (errors (snd (recordError s newId d now)))
        \<and> (newId, \<lparr>errorId = newId, timestampMs = now, detail = d, resolved = False,
                   resolution = None, resolvedAt = None, resolvedBy = None\<rparr>)
            \<in> set (errors (snd (recordError s newId d now)))"
    if h: "map_of (errors s) newId = None" "length (errors s) \<le> maxErrors s"
      "resolved_of (errors s) \<noteq> []"
  proof -
    let ?e = "\<lparr>errorId = newId, timestampMs = now, detail = d, resolved = False,
                   resolution = None, resolvedAt = None, resolvedBy = None\<rparr>"
    let ?s1 = "s\<lparr>errors := errors s @ [(newId, ?e)], dirty := True\<rparr>"
    have upd: "AList.update newId ?e (errors s) = errors s @ [(newId, ?e)]"
      using h(1) by (rule update_new_append)
    have r: "snd (recordError s newId d now) = error_cleanup ?s1"
      by (simp add: recordError_def Let_def upd)
    have u1: "unresolved_of (errors ?s1) = unresolved_of (errors s) @ [(newId, ?e)]"
      by (simp add: unresolved_of_def)
    have "0 < length (resolved_of (errors s))" using h(3) by simp
    with split_length [of "errors s"] h(2)
    have "Suc (length (unresolved_of (errors s))) \<le> maxErrors s" by linarith
    then have ule: "length (unresolved_of (errors ?s1)) \<le> maxErrors ?s1"
      unfolding u1 by simp
    have sub: "set (unresolved_of (errors ?s1)) \<subseteq> set (errors (error_cleanup ?s1))"
    proof (cases "length (errors ?s1) \<le> maxErrors ?s1")
      case True
      then show ?thesis by (auto simp: error_cleanup_def unresolved_of_def)
    next
      case False
      then have "maxErrors ?s1 < length (errors ?s1)" by simp
      from room [OF this ule] show ?thesis by blast
    qed
    then show ?thesis unfolding r u1 by simp
  qed
  from small room [of s] over cleanup_bound [of s] rec show ?thesis by blast
qed


lemma error_cleanup_behaviour_examples:
  "map fst (errors (error_cleanup scenario_mixed)) = [''err-c'', ''err-b'']
   \<and> map fst (errors (error_cleanup scenario_unresolved)) = [''err-c'', ''err-b'']
   \<and> length (errors (error_cleanup scenario_mixed)) \<le> 2
   \<and> error_cleanup scenario_within = scenario_within
   \<and> scenario_entry ''err-b'' 20 False
       \<in> set (errors (snd (recordError scenario_within ''err-d'' () 40)))
   \<and> scenario_entry ''err-d'' 40 False
       \<in> set (errors (snd (recordError scenario_within ''err-d'' () 40)))"
proof -
  note within = error_cleanup_behaviour [where s = scenario_within and newId = "''err-d''"
      and d = "()" and now = 40]
  have 4: "error_cleanup scenario_within = scenario_within"
    using within by (simp add: scenario_within_def)
  have 5: "scenario_entry ''err-b'' 20 False
       \<in> set (errors (snd (recordError scenario_within ''err-d'' () 40)))
     \<and> scenario_entry ''err-d'' 40 False
       \<in> set (errors (snd (recordError scenario_within ''err-d'' () 40)))"
    using within
    by (simp add: scenario_within_def scenario_entry_def unresolved_of_def resolved_of_def)
  note mixed = error_cleanup_behaviour [where s = scenario_mixed and newId = "''err-d''"
      and d = "()" and now = 40]
  note unres = error_cleanup_behaviour [where s = scenario_unresolved and newId = "''err-d''"
      and d = "()" and now = 40]
  have 1: "map fst (errors (error_cleanup scenario_mixed)) = [''err-c'', ''err-b'']"
    using mixed
    by (simp add: scenario_mixed_def scenario_entry_def unresolved_of_def resolved_of_def
          newest_first_def)
  have 2: "map fst (errors (error_cleanup scenario_unresolved)) = [''err-c'', ''err-b'']"
    using unres
    by (simp add: scenario_unresolved_def scenario_entry_def unresolved_of_def resolved_of_def
          newest_first_def)
  have 3: "length (errors (error_cleanup scenario_mixed)) \<le> 2"
    using mixed by (simp add: scenario_mixed_def)
  from 1 2 3 4 5 show ?thesis by simp
qed

section \<open>Reconciliation: classification and summary\<close>

lemma Rep_num:
  "- (2 ^ 53) < n \<Longrightarrow> n < 2 ^ 53 \<Longrightarrow> Rep_safe_int (Abs_safe_int n) = n"
  by (simp add: Abs_safe_int_inverse)

lemma sin_registro_remoto_iff:
  "sin_registro_remoto env l w \<longleftrightarrow> fst (buscarEnBiller env l w) = Remote None"
  by (auto simp: sin_registro_remoto_def consulta_id_def numero_interno_def buscarEnBiller_def
        buscarPorOrden_def split: prod.splits sum.splits option.splits if_splits)

lemma registro_remoto_iff:
  "registro_remoto env l w b \<longleftrightarrow> fst (buscarEnBiller env l w) = Remote (Some b)"
  by (auto simp: registro_remoto_def consulta_id_def numero_interno_def buscarEnBiller_def
        buscarPorOrden_def split: prod.splits sum.splits option.splits if_splits)

lemma mismos_datos_consistente: "mismos_datos l b \<Longrightarrow> verificarConsistencia l b = []"
  by (simp add: mismos_datos_def verificarConsistencia_def)

lemma step_missing:
  "fst (buscarEnBiller env l w) = Remote None \<Longrightarrow>
   reconciliar_step env ((ds, vs, es), w) l =
     ((ds @ [missing_in_biller l], vs, es), delay env 100 (snd (buscarEnBiller env l w)))"
  by (cases "buscarEnBiller env l w") (simp add: reconciliar_step.simps)

lemma step_verified:
  "fst (buscarEnBiller env l w) = Remote (Some b) \<Longrightarrow> verificarConsistencia l b = [] \<Longrightarrow>
   reconciliar_step env ((ds, vs, es), w) l =
     ((ds, vs @ [\<lparr>verificado_local = l, verificado_biller = b,
                   verificadoAt = clock env (snd (buscarEnBiller env l w))\<rparr>], es),
      delay env 100 (snd (buscarEnBiller env l w)))"
  by (cases "buscarEnBiller env l w") (simp add: reconciliar_step.simps)

lemma step_world:
  "snd (reconciliar_step env ((ds, vs, es), w) l) = despues env l w"
  by (auto simp: despues_def consulta_id_def numero_interno_def reconciliar_step.simps
        buscarEnBiller_def buscarPorOrden_def Let_def
        split: prod.splits sum.splits option.splits if_splits)

lemma step_count:
  "length (fst (fst (reconciliar_step env a l))) + length (fst (snd (fst (reconciliar_step env a l))))
     + length (snd (snd (fst (reconciliar_step env a l))))
   = Suc (length (fst (fst a)) + length (fst (snd (fst a))) + length (snd (snd (fst a))))"
proof -
  obtain ds vs es w where a: "a = ((ds, vs, es), w)" by (metis prod.collapse)
  show ?thesis unfolding a
    by (cases "buscarEnBiller env l w")
       (auto simp: reconciliar_step.simps Let_def split: lookup_outcome.splits option.splits)
qed

lemma run_count:
  "length (fst (fst (foldl (reconciliar_step env) a ls)))
     + length (fst (snd (fst (foldl (reconciliar_step env) a ls))))
     + length (snd (snd (fst (foldl (reconciliar_step env) a ls))))
   = length (fst (fst a)) + length (fst (snd (fst a))) + length (snd (snd (fst a))) + length ls"
proof (induction ls arbitrary: a)
  case Nil
  then show ?case by simp
next
  case (Cons l ls)
  show ?case
    using Cons.IH [of "reconciliar_step env a l"] step_count [of env a l] by simp
qed

lemma step_prefix:
  "prefix (fst (fst a)) (fst (fst (reconciliar_step env a l)))"
proof -
  obtain ds vs es w where a: "a = ((ds, vs, es), w)" by (metis prod.collapse)
  show ?thesis unfolding a
    by (cases "buscarEnBiller env l w")
       (auto simp: reconciliar_step.simps Let_def split: lookup_outcome.splits option.splits)
qed

lemma run_prefix:
  "prefix (fst (fst a)) (fst (fst (foldl (reconciliar_step env) a ls)))"
proof (induction ls arbitrary: a)
  case Nil
  then show ?case by simp
next
  case (Cons l ls)
  have "prefix (fst (fst a)) (fst (fst (reconciliar_step env a l)))"
    by (rule step_prefix)
  also have "prefix \<dots> (fst (fst (foldl (reconciliar_step env) (reconciliar_step env a l) ls)))"
    by (rule Cons.IH)
  finally show ?case by simp
qed

lemma run_world:
  "snd (foldl (reconciliar_step env) ((ds, vs, es), w) ls) = foldl (\<lambda>w l. despues env l w) w ls"
proof (induction ls arbitrary: ds vs es w)
  case Nil
  then show ?case by simp
next
  case (Cons l ls)
  obtain ds' vs' es' w' where s: "reconciliar_step env ((ds, vs, es), w) l = ((ds', vs', es'), w')"
    by (metis prod.collapse)
  then have "w' = despues env l w" using step_world [of env ds vs es w l] by simp
  then show ?case using Cons.IH [of ds' vs' es' w'] s by simp
qed

lemma scenario_lookup:
  assumes "0 < i" "i < 2 ^ 52"
  shows "buscarEnBiller (scenario_env n) (scenario_local i) w =
     (if 1 \<le> i \<and> i \<le> n then (Remote (Some (scenario_local i)), Suc w)
      else (Remote None, Suc (Suc w)))"
proof -
  have r: "Rep_safe_int (Abs_safe_int i) = i" "Rep_safe_int (Abs_safe_int (1000 + i)) = 1000 + i"
    using assms by (simp_all add: Rep_num)
  show ?thesis
    using assms(1)
    by (simp add: buscarEnBiller_def buscarPorOrden_def scenario_env_def scenario_local_def
          num_def r)
qed

lemma scenario_consistent: "verificarConsistencia (scenario_local i) (scenario_local i) = []"
  by (simp add: verificarConsistencia_def)

lemma scenario_step:
  "0 < i \<Longrightarrow> i < 2 ^ 52 \<Longrightarrow>
   reconciliar_step (scenario_env n) ((ds, vs, es), w) (scenario_local i) =
     (if 1 \<le> i \<and> i \<le> n
      then ((ds, vs @ [\<lparr>verificado_local = scenario_local i, verificado_biller = scenario_local i,
                          verificadoAt = int (Suc w)\<rparr>], es), Suc w)
      else ((ds @ [missing_in_biller (scenario_local i)], vs, es), Suc (Suc w)))"
  by (simp add: reconciliar_step.simps scenario_lookup scenario_consistent)
     (simp add: scenario_env_def)


lemma reconciliar_fields:
  "n_total (resumen (fst (reconciliar env rid ls w0))) = length ls"
  "n_verificados (resumen (fst (reconciliar env rid ls w0))) =
     length (fst (snd (fst (foldl (reconciliar_step env) (([], [], []), w0) ls))))"
  "n_discrepancias (resumen (fst (reconciliar env rid ls w0))) =
     length (fst (fst (foldl (reconciliar_step env) (([], [], []), w0) ls)))"
  "n_errores (resumen (fst (reconciliar env rid ls w0))) =
     length (snd (snd (fst (foldl (reconciliar_step env) (([], [], []), w0) ls))))"
  "discrepancias (fst (reconciliar env rid ls w0)) =
     fst (fst (foldl (reconciliar_step env) (([], [], []), w0) ls))"
  "errores (fst (reconciliar env rid ls w0)) =
     snd (snd (fst (foldl (reconciliar_step env) (([], [], []), w0) ls)))"
  "verificados (fst (reconciliar env rid ls w0)) =
     take 10 (fst (snd (fst (foldl (reconciliar_step env) (([], [], []), w0) ls))))"
  "tasaExito (resumen (fst (reconciliar env rid ls w0))) =
     tasaExito_of (length (fst (snd (fst (foldl (reconciliar_step env) (([], [], []), w0) ls)))))
       (length ls)"
  "critical (porSeveridad (fst (reconciliar env rid ls w0))) =
     length (filter (\<lambda>d. severity d = CRITICAL)
       (fst (fst (foldl (reconciliar_step env) (([], [], []), w0) ls))))"
  by (simp_all add: reconciliar_def split: prod.splits)

lemma step_missing':
  "sin_registro_remoto env l w \<Longrightarrow>
   reconciliar_step env ((ds, vs, es), w) l = ((ds @ [missing_in_biller l], vs, es), despues env l w)"
  using step_missing [of env l w ds vs es] step_world [of env ds vs es w l]
  by (simp add: sin_registro_remoto_iff)

lemma step_verified':
  assumes "registro_remoto env l w b" "mismos_datos l b"
  shows "reconciliar_step env ((ds, vs, es), w) l =
     ((ds, vs @ [\<lparr>verificado_local = l, verificado_biller = b,
                   verificadoAt = clock env (snd (buscarEnBiller env l w))\<rparr>], es),
      despues env l w)"
  using step_verified [of env l w b ds vs es] step_world [of env ds vs es w l] assms
  by (simp add: registro_remoto_iff mismos_datos_consistente)

text \<open>
  C9. When the lookups made for a local record find no remote record (in the outside
  state reached when its turn comes), the run's \<open>discrepancias\<close> contain the entry for that
  record with type \<open>missing_in_biller\<close>, severity \<open>critical\<close>, no remote record and the
  recommendation to verify and re-emit; the iteration adds that entry and nothing else.
  A run over two local records \<open>a\<close> and \<open>b\<close>, in either order, where the lookups for \<open>a\<close>
  (by id, or by internal number when the lookup by id finds nothing) answer a remote
  record \<open>ra\<close> with the same type, series, number and authorization code, and the lookups
  for \<open>b\<close> find nothing, reports total 2, verified 1, discrepancies 1, errors 0; its only
  discrepancy is the missing one for \<open>b\<close>, counted under \<open>critical\<close>, and its only verified
  pair is \<open>a\<close> with \<open>ra\<close>. The hypotheses speak of the answers of the remote client only.
\<close>

theorem recon_missing_remotely:
  "(sin_registro_remoto env l (foldl (\<lambda>w l. despues env l w) w0 xs) \<longrightarrow>
      missing_in_biller l \<in> set (discrepancias (fst (reconciliar env rid (xs @ l # ys) w0))))
   \<and> tipo (missing_in_biller l) = MISSING_IN_BILLER
   \<and> severity (missing_in_biller l) = CRITICAL
   \<and> local (missing_in_biller l) = l
   \<and> biller (missing_in_biller l) = None
   \<and> accionRecomendada (missing_in_biller l) = VerificarYReemitir
   \<and> (sin_registro_remoto env l w \<longrightarrow>
        reconciliar_step env ((ds, vs, es), w) l =
          ((ds @ [missing_in_biller l], vs, es), despues env l w))
   \<and> (registro_remoto env a w0 ra \<and> mismos_datos a ra
        \<and> sin_registro_remoto env b (despues env a w0) \<longrightarrow>
        n_total (resumen (fst (reconciliar env rid [a, b] w0))) = 2
        \<and> n_verificados (resumen (fst (reconciliar env rid [a, b] w0))) = 1
        \<and> n_discrepancias (resumen (fst (reconciliar env rid [a, b] w0))) = 1
        \<and> n_errores (resumen (fst (reconciliar env rid [a, b] w0))) = 0
        \<and> discrepancias (fst (reconciliar env rid [a, b] w0)) = [missing_in_biller b]
        \<and> critical (porSeveridad (fst (reconciliar env rid [a, b] w0))) = 1
        \<and> map verificado_local (verificados (fst (reconciliar env rid [a, b] w0))) = [a]
        \<and> map verificado_biller (verificados (fst (reconciliar env rid [a, b] w0))) = [ra])
   \<and> (sin_registro_remoto env b w0 \<and> registro_remoto env a (despues env b w0) ra
        \<and> mismos_datos a ra \<longrightarrow>
        n_total (resumen (fst (reconciliar env rid [b, a] w0))) = 2
        \<and> n_verificados (resumen (fst (reconciliar env rid [b, a] w0))) = 1
        \<and> n_discrepancias (resumen (fst (reconciliar env rid [b, a] w0))) = 1
        \<and> n_errores (resumen (fst (reconciliar env rid [b, a] w0))) = 0
        \<and> discrepancias (fst (reconciliar env rid [b, a] w0)) = [missing_in_biller b]
        \<and> critical (porSeveridad (fst (reconciliar env rid [b, a] w0))) = 1
        \<and> map verificado_local (verificados (fst (reconciliar env rid [b, a] w0))) = [a]
        \<and> map verificado_biller (verificados (fst (reconciliar env rid [b, a] w0))) = [ra])"
proof -
  have in_run: "missing_in_biller l \<in> set (discrepancias (fst (reconciliar env rid (xs @ l # ys) w0)))"
    if h: "sin_registro_remoto env l (foldl (\<lambda>w l. despues env l w) w0 xs)"
  proof -
    let ?f = "reconciliar_step env"
    obtain ds vs es w where pre: "foldl ?f (([], [], []), w0) xs = ((ds, vs, es), w)"
      by (metis prod.collapse)
    have "w = foldl (\<lambda>w l. despues env l w) w0 xs"
      using run_world [of env "[]" "[]" "[]" w0 xs] pre by simp
    with h have "sin_registro_remoto env l w" by simp
    then have st: "?f ((ds, vs, es), w) l = ((ds @ [missing_in_biller l], vs, es), despues env l w)"
      by (rule step_missing')
    have "foldl ?f (([], [], []), w0) (xs @ l # ys) =
        foldl ?f ((ds @ [missing_in_biller l], vs, es), despues env l w) ys"
      by (simp add: pre st)
    moreover have "prefix (ds @ [missing_in_biller l])
        (fst (fst (foldl ?f ((ds @ [missing_in_biller l], vs, es), despues env l w) ys)))"
      using run_prefix [of "((ds @ [missing_in_biller l], vs, es), despues env l w)" env ys] by simp
    ultimately have "prefix (ds @ [missing_in_biller l])
        (discrepancias (fst (reconciliar env rid (xs @ l # ys) w0)))"
      by (simp add: reconciliar_fields(5))
    then show ?thesis by (auto simp: prefix_def)
  qed
  have fields: "tipo (missing_in_biller l) = MISSING_IN_BILLER
     \<and> severity (missing_in_biller l) = CRITICAL \<and> local (missing_in_biller l) = l
     \<and> biller (missing_in_biller l) = None
     \<and> accionRecomendada (missing_in_biller l) = VerificarYReemitir" for l
    by (simp add: missing_in_biller_def)
  have ab: "n_total (resumen (fst (reconciliar env rid [a, b] w0))) = 2
        \<and> n_verificados (resumen (fst (reconciliar env rid [a, b] w0))) = 1
        \<and> n_discrepancias (resumen (fst (reconciliar env rid [a, b] w0))) = 1
        \<and> n_errores (resumen (fst (reconciliar env rid [a, b] w0))) = 0
        \<and> discrepancias (fst (reconciliar env rid [a, b] w0)) = [missing_in_biller b]
        \<and> critical (porSeveridad (fst (reconciliar env rid [a, b] w0))) = 1
        \<and> map verificado_local (verificados (fst (reconciliar env rid [a, b] w0))) = [a]
        \<and> map verificado_biller (verificados (fst (reconciliar env rid [a, b] w0))) = [ra]"
    if h: "registro_remoto env a w0 ra" "mismos_datos a ra"
      "sin_registro_remoto env b (despues env a w0)"
  proof -
    let ?v = "\<lparr>verificado_local = a, verificado_biller = ra,
               verificadoAt = clock env (snd (buscarEnBiller env a w0))\<rparr>"
    have s1: "reconciliar_step env (([], [], []), w0) a = (([], [?v], []), despues env a w0)"
      using step_verified' [OF h(1) h(2), of "[]" "[]" "[]"] by simp
    have s2: "reconciliar_step env (([], [?v], []), despues env a w0) b =
        (([missing_in_biller b], [?v], []), despues env b (despues env a w0))"
      using step_missing' [OF h(3), of "[]" "[?v]" "[]"] by simp
    show ?thesis
      by (simp add: reconciliar_fields s1 s2 fields)
  qed
  have ba: "n_total (resumen (fst (reconciliar env rid [b, a] w0))) = 2
        \<and> n_verificados (resumen (fst (reconciliar env rid [b, a] w0))) = 1
        \<and> n_discrepancias (resumen (fst (reconciliar env rid [b, a] w0))) = 1
        \<and> n_errores (resumen (fst (reconciliar env rid [b, a] w0))) = 0
        \<and> discrepancias (fst (reconciliar env rid [b, a] w0)) = [missing_in_biller b]
        \<and> critical (porSeveridad (fst (reconciliar env rid [b, a] w0))) = 1
        \<and> map verificado_local (verificados (fst (reconciliar env rid [b, a] w0))) = [a]
        \<and> map verificado_biller (verificados (fst (reconciliar env rid [b, a] w0))) = [ra]"
    if h: "sin_registro_remoto env b w0" "registro_remoto env a (despues env b w0) ra"
      "mismos_datos a ra"
  proof -
    let ?v = "\<lparr>verificado_local = a, verificado_biller = ra,
               verificadoAt = clock env (snd (buscarEnBiller env a (despues env b w0)))\<rparr>"
    have s1: "reconciliar_step env (([], [], []), w0) b =
        (([missing_in_biller b], [], []), despues env b w0)"
      using step_missing' [OF h(1), of "[]" "[]" "[]"] by simp
    have s2: "reconciliar_step env (([missing_in_biller b], [], []), despues env b w0) a =
        (([missing_in_biller b], [?v], []), despues env a (despues env b w0))"
      using step_verified' [OF h(2) h(3), of "[missing_in_biller b]" "[]" "[]"] by simp
    show ?thesis
      by (simp add: reconciliar_fields s1 s2 fields)
  qed
  from in_run fields [of l] step_missing' [of env l w ds vs es] ab ba show ?thesis by blast
qed

theorem recon_missing_remotely_witness:
  "n_total (resumen (fst (reconciliar (scenario_env 1) ''r1'' [scenario_local 1, scenario_local 2] 0))) = 2
   \<and> n_verificados (resumen (fst (reconciliar (scenario_env 1) ''r1'' [scenario_local 1, scenario_local 2] 0))) = 1
   \<and> n_discrepancias (resumen (fst (reconciliar (scenario_env 1) ''r1'' [scenario_local 1, scenario_local 2] 0))) = 1
   \<and> discrepancias (fst (reconciliar (scenario_env 1) ''r1'' [scenario_local 1, scenario_local 2] 0))
       = [missing_in_biller (scenario_local 2)]
   \<and> mensaje (missing_in_biller (scenario_local 2)) = ''Comprobante 2 no encontrado en Biller''
   \<and> missing_in_biller (scenario_local 2)
       \<in> set (discrepancias (fst (reconciliar (scenario_env 1) ''r1''
                ([scenario_local 1] @ scenario_local 2 # []) 0)))
   \<and> n_verificados (resumen (fst (reconciliar (scenario_env 1) ''r1'' [scenario_local 2, scenario_local 1] 0))) = 1
   \<and> discrepancias (fst (reconciliar (scenario_env 1) ''r1'' [scenario_local 2, scenario_local 1] 0))
       = [missing_in_biller (scenario_local 2)]
   \<and> reconciliar_step (scenario_env 1) (([], [], []), 1) (scenario_local 2)
       = (([missing_in_biller (scenario_local 2)], [], []), 3)
   \<and> fst (obtenerComprobante scenario_env_orden (comprobante_id (scenario_local 1)) 0)
       = Inl \<lparr>status = num 404, lookup_message = Str ''Not Found''\<rparr>
   \<and> fst (buscarPorNumeroInterno scenario_env_orden ''shopify-1001'' 1) = Inr (Some (scenario_local 1))
   \<and> n_verificados (resumen (fst (reconciliar scenario_env_orden ''r2'' [scenario_local 1, scenario_local 2] 0))) = 1
   \<and> n_discrepancias (resumen (fst (reconciliar scenario_env_orden ''r2'' [scenario_local 1, scenario_local 2] 0))) = 1
   \<and> discrepancias (fst (reconciliar scenario_env_orden ''r2'' [scenario_local 1, scenario_local 2] 0))
       = [missing_in_biller (scenario_local 2)]
   \<and> map verificado_biller (verificados (fst (reconciliar scenario_env_orden ''r2'' [scenario_local 1, scenario_local 2] 0)))
       = [scenario_local 1]
   \<and> n_verificados (resumen (fst (reconciliar scenario_env_orden ''r2'' [scenario_local 2, scenario_local 1] 0))) = 1
   \<and> discrepancias (fst (reconciliar scenario_env_orden ''r2'' [scenario_local 2, scenario_local 1] 0))
       = [missing_in_biller (scenario_local 2)]"
proof -
  have rep: "Rep_safe_int (Abs_safe_int 1) = 1" "Rep_safe_int (Abs_safe_int 2) = 2"
    "Rep_safe_int (Abs_safe_int 1001) = 1001" "Rep_safe_int (Abs_safe_int 1002) = 1002"
    by (simp_all add: Rep_num)
  have same: "mismos_datos (scenario_local 1) (scenario_local 1)"
    by (simp add: mismos_datos_def)
  have none0: "sin_registro_remoto (scenario_env 1) (scenario_local 2) 0"
    by (simp add: sin_registro_remoto_iff scenario_lookup)
  have after2: "despues (scenario_env 1) (scenario_local 2) 0 = 2"
    "despues (scenario_env 1) (scenario_local 2) (Suc 0) = 3"
    using step_world [of "scenario_env 1" "[]" "[]" "[]" _ "scenario_local 2", symmetric]
    by (simp_all add: scenario_step)
  have ok2: "registro_remoto (scenario_env 1) (scenario_local 1) 2 (scenario_local 1)"
    by (simp add: registro_remoto_iff scenario_lookup)
  have ok: "registro_remoto (scenario_env 1) (scenario_local 1) 0 (scenario_local 1)"
    by (simp add: registro_remoto_iff scenario_lookup)
  have after: "despues (scenario_env 1) (scenario_local 1) 0 = 1"
    using step_world [of "scenario_env 1" "[]" "[]" "[]" 0 "scenario_local 1", symmetric]
    by (simp add: scenario_step)
  have none: "sin_registro_remoto (scenario_env 1) (scenario_local 2) 1"
    by (simp add: sin_registro_remoto_iff scenario_lookup)
  note t = recon_missing_remotely [where env = "scenario_env 1" and a = "scenario_local 1"
      and ra = "scenario_local 1"
      and b = "scenario_local 2" and ?w0.0 = 0 and rid = "''r1''" and l = "scenario_local 2"
      and xs = "[scenario_local 1]" and ys = "[]" and w = 1 and ds = "[]" and vs = "[]" and es = "[]"]
  have msg: "mensaje (missing_in_biller (scenario_local 2)) = ''Comprobante 2 no encontrado en Biller''"
    by (simp add: missing_in_biller_def scenario_local_def num_def rep digits.simps)
  have numero1: "numero_interno (scenario_local 1) = ''shopify-1001''"
    by (simp add: numero_interno_def scenario_local_def num_def rep digits.simps)
  have numero2: "numero_interno (scenario_local 2) = ''shopify-1002''"
    by (simp add: numero_interno_def scenario_local_def num_def rep digits.simps)
  have id_orden: "consulta_id scenario_env_orden (scenario_local 1) w =
      (Inl \<lparr>status = num 404, lookup_message = Str ''Not Found''\<rparr>, Suc w)"
    "consulta_id scenario_env_orden (scenario_local 2) w =
      (Inl \<lparr>status = num 404, lookup_message = Str ''Not Found''\<rparr>, Suc w)" for w
    by (simp_all add: consulta_id_def scenario_env_orden_def scenario_local_def num_def rep)
  have orden: "truthy (shopify_order_id (scenario_local 1))"
    "truthy (shopify_order_id (scenario_local 2))"
    by (simp_all add: scenario_local_def num_def rep)
  have por_numero: "buscarPorNumeroInterno scenario_env_orden ''shopify-1001'' w =
      (Inr (Some (scenario_local 1)), Suc w)"
    "buscarPorNumeroInterno scenario_env_orden ''shopify-1002'' w = (Inr None, Suc w)" for w
    by (simp_all add: scenario_env_orden_def)
  have found: "registro_remoto scenario_env_orden (scenario_local 1) w (scenario_local 1)" for w
    by (simp add: registro_remoto_def id_orden orden numero1 por_numero)
  have lost: "sin_registro_remoto scenario_env_orden (scenario_local 2) w" for w
    by (simp add: sin_registro_remoto_def id_orden orden numero2 por_numero)
  have turn: "despues scenario_env_orden (scenario_local 1) w = Suc (Suc w)"
    "despues scenario_env_orden (scenario_local 2) w = Suc (Suc w)" for w
    by (simp_all add: despues_def id_orden orden numero1 numero2 por_numero)
       (simp_all add: scenario_env_orden_def)
  have by_id: "fst (obtenerComprobante scenario_env_orden (comprobante_id (scenario_local 1)) 0)
       = Inl \<lparr>status = num 404, lookup_message = Str ''Not Found''\<rparr>"
    "fst (buscarPorNumeroInterno scenario_env_orden ''shopify-1001'' 1) = Inr (Some (scenario_local 1))"
    by (simp_all add: scenario_env_orden_def)
  note u = recon_missing_remotely [where env = scenario_env_orden and a = "scenario_local 1"
      and ra = "scenario_local 1"
      and b = "scenario_local 2" and ?w0.0 = 0 and rid = "''r2''" and l = "scenario_local 2"
      and xs = "[]" and ys = "[]" and w = 0 and ds = "[]" and vs = "[]" and es = "[]"]
  have first: "n_total (resumen (fst (reconciliar (scenario_env 1) ''r1'' [scenario_local 1, scenario_local 2] 0))) = 2
   \<and> n_verificados (resumen (fst (reconciliar (scenario_env 1) ''r1'' [scenario_local 1, scenario_local 2] 0))) = 1
   \<and> n_discrepancias (resumen (fst (reconciliar (scenario_env 1) ''r1'' [scenario_local 1, scenario_local 2] 0))) = 1
   \<and> discrepancias (fst (reconciliar (scenario_env 1) ''r1'' [scenario_local 1, scenario_local 2] 0))
       = [missing_in_biller (scenario_local 2)]
   \<and> mensaje (missing_in_biller (scenario_local 2)) = ''Comprobante 2 no encontrado en Biller''
   \<and> missing_in_biller (scenario_local 2)
       \<in> set (discrepancias (fst (reconciliar (scenario_env 1) ''r1''
                ([scenario_local 1] @ scenario_local 2 # []) 0)))
   \<and> n_verificados (resumen (fst (reconciliar (scenario_env 1) ''r1'' [scenario_local 2, scenario_local 1] 0))) = 1
   \<and> discrepancias (fst (reconciliar (scenario_env 1) ''r1'' [scenario_local 2, scenario_local 1] 0))
       = [missing_in_biller (scenario_local 2)]
   \<and> reconciliar_step (scenario_env 1) (([], [], []), 1) (scenario_local 2)
       = (([missing_in_biller (scenario_local 2)], [], []), 3)"
    using t ok none none0 ok2 msg same by (simp add: after after2)
  have second: "n_verificados (resumen (fst (reconciliar scenario_env_orden ''r2'' [scenario_local 1, scenario_local 2] 0))) = 1
   \<and> n_discrepancias (resumen (fst (reconciliar scenario_env_orden ''r2'' [scenario_local 1, scenario_local 2] 0))) = 1
   \<and> discrepancias (fst (reconciliar scenario_env_orden ''r2'' [scenario_local 1, scenario_local 2] 0))
       = [missing_in_biller (scenario_local 2)]
   \<and> map verificado_biller (verificados (fst (reconciliar scenario_env_orden ''r2'' [scenario_local 1, scenario_local 2] 0)))
       = [scenario_local 1]
   \<and> n_verificados (resumen (fst (reconciliar scenario_env_orden ''r2'' [scenario_local 2, scenario_local 1] 0))) = 1
   \<and> discrepancias (fst (reconciliar scenario_env_orden ''r2'' [scenario_local 2, scenario_local 1] 0))
       = [missing_in_biller (scenario_local 2)]"
    using u found lost same by (simp add: turn)
  from first second by_id show ?thesis by simp
qed
section \<open>Reconciliation: the success rate\<close>

lemma find_shift_spec: "0 < a \<Longrightarrow> 2 ^ 52 * b \<le> a * 2 ^ find_shift a b k"
proof (induction a b k rule: find_shift.induct)
  case (1 a b k)
  show ?case
  proof (cases "2 ^ 52 * b \<le> a * 2 ^ k")
    case True
    then show ?thesis by (subst find_shift.simps) simp
  next
    case False
    with "1.prems" have "2 ^ 52 * b \<le> a * 2 ^ find_shift a b (Suc k)"
      using "1.IH" by simp
    with False "1.prems" show ?thesis by (subst find_shift.simps) simp
  qed
qed

lemma round_half_even_near:
  assumes "0 < d"
  shows "\<bar>real (round_half_even n d) - real n / real d\<bar> \<le> 1 / 2"
proof -
  define q where "q = n div d"
  define r where "r = n mod d"
  have n: "n = q * d + r" and r: "r < d"
    using assms by (simp_all add: q_def r_def)
  have quot: "real n / real d = real q + real r / real d"
    using assms by (simp add: n field_simps)
  have frac: "0 \<le> real r / real d" "real r / real d < 1"
    using assms r by simp_all
  have dpos: "0 < real d" using assms by simp
  consider "2 * r < d" | "2 * r > d" | "2 * r = d" by linarith
  then show ?thesis
  proof cases
    case 1
    then have "round_half_even n d = q" by (simp add: round_half_even_def q_def r_def Let_def)
    moreover from 1 have "real (2 * r) < real d" by (simp only: of_nat_less_iff)
    then have "real r / real d < 1 / 2" using dpos by (simp add: field_simps)
    ultimately show ?thesis using frac quot by simp
  next
    case 2
    then have "round_half_even n d = q + 1" by (simp add: round_half_even_def q_def r_def Let_def)
    moreover from 2 have "real d < real (2 * r)" by (simp only: of_nat_less_iff)
    then have "real r / real d > 1 / 2" using dpos by (simp add: field_simps)
    ultimately show ?thesis using frac quot by simp
  next
    case 3
    then have "round_half_even n d = q \<or> round_half_even n d = q + 1"
      by (simp add: round_half_even_def q_def r_def Let_def)
    moreover from 3 have "real (2 * r) = real d" by (simp only: of_nat_eq_iff)
    then have "real r / real d = 1 / 2" using dpos by (simp add: field_simps)
    ultimately show ?thesis using quot by auto
  qed
qed

lemma double_of_quotient_near:
  assumes "0 < a" "0 < b"
  shows "\<bar>real (fst (double_of_quotient a b)) / 2 ^ snd (double_of_quotient a b) - real a / real b\<bar>
           \<le> 1 / 2 ^ (snd (double_of_quotient a b) + 1)"
    and "2 ^ 52 * b \<le> a * 2 ^ snd (double_of_quotient a b)"
proof -
  define k where "k = find_shift a b 0"
  define m where "m = round_half_even (a * 2 ^ k) b"
  have dq: "double_of_quotient a b = (m, k)"
    by (simp add: double_of_quotient_def k_def m_def Let_def)
  define x where "x = real a / real b"
  define p where "p = (2::real) ^ k"
  have p: "0 < p" by (simp add: p_def)
  have "\<bar>real m - real (a * 2 ^ k) / real b\<bar> \<le> 1 / 2"
    unfolding m_def using assms(2) by (rule round_half_even_near)
  then have near: "\<bar>real m - x * p\<bar> \<le> 1 / 2" by (simp add: x_def p_def)
  have "real m / p - x = (real m - x * p) / p" using p by (simp add: field_simps)
  then have "\<bar>real m / p - x\<bar> = \<bar>real m - x * p\<bar> / p"
    using p by (simp add: abs_divide)
  also have "\<dots> \<le> (1 / 2) / p"
    using near p by (rule divide_right_mono [OF _ less_imp_le])
  finally have "\<bar>real m / p - x\<bar> \<le> 1 / (2 * p)" by simp
  then show "\<bar>real (fst (double_of_quotient a b)) / 2 ^ snd (double_of_quotient a b) - real a / real b\<bar>
           \<le> 1 / 2 ^ (snd (double_of_quotient a b) + 1)"
    by (simp add: dq x_def p_def)
  show "2 ^ 52 * b \<le> a * 2 ^ snd (double_of_quotient a b)"
    unfolding dq snd_conv k_def using assms(1) by (rule find_shift_spec)
qed

lemma math_round_near:
  "real_of_int (math_round (m, k)) \<le> real m / 2 ^ k + 1 / 2"
  "real m / 2 ^ k + 1 / 2 < real_of_int (math_round (m, k)) + 1"
proof -
  define n where "n = 2 * m + 2 ^ k"
  define d where "d = (2::nat) ^ (k + 1)"
  have d: "0 < d" by (simp add: d_def)
  have val: "real n / real d = real m / 2 ^ k + 1 / 2"
    by (simp add: n_def d_def field_simps)
  have mr: "math_round (m, k) = int (n div d)"
    by (simp add: math_round_def n_def d_def)
  have n: "n = (n div d) * d + n mod d" by simp
  have "real n = real (n div d) * real d + real (n mod d)"
    by (metis n of_nat_add of_nat_mult)
  then have q: "real n / real d = real (n div d) + real (n mod d) / real d"
    using d by (simp add: field_simps)
  have "0 \<le> real (n mod d) / real d" "real (n mod d) / real d < 1"
    using d by simp_all
  with q have "real (n div d) \<le> real n / real d" "real n / real d < real (n div d) + 1"
    by linarith+
  then show "real_of_int (math_round (m, k)) \<le> real m / 2 ^ k + 1 / 2"
    "real m / 2 ^ k + 1 / 2 < real_of_int (math_round (m, k)) + 1"
    by (simp_all add: mr val)
qed

lemma tasaExito_of_zero: "0 < t \<Longrightarrow> tasaExito_of 0 t = 0"
  by (simp add: tasaExito_of_def double_div_def double_times_100_def double_of_quotient_def
        math_round_def round_half_even_def find_shift.simps [of 0])

lemma tasaExito_of_near:
  assumes t: "0 < t" and vt: "v \<le> t" and small: "t < 2 ^ 32"
  shows "\<bar>real_of_int (tasaExito_of v t) - 100 * real v / real t\<bar> \<le> 1 / 2"
proof (cases "v = 0")
  case True
  then show ?thesis using t by (simp add: tasaExito_of_zero)
next
  case False
  then have v: "0 < v" by simp
  define m1 where "m1 = fst (double_div v t)"
  define k1 where "k1 = snd (double_div v t)"
  define x where "x = real m1 / 2 ^ k1"
  define m2 where "m2 = fst (double_times_100 (double_div v t))"
  define k2 where "k2 = snd (double_times_100 (double_div v t))"
  define p where "p = real m2 / 2 ^ k2"
  define y where "y = 100 * real v / real t"
  define z where "z = real v / real t"
  define r where "r = tasaExito_of v t"
  have tr: "0 < real t" "real t < 2 ^ 32" "real v \<le> real t" "0 < real v"
    using t small vt v by simp_all
  \<comment> \<open>the quotient\<close>
  have q1: "\<bar>x - real v / real t\<bar> \<le> 1 / 2 ^ (k1 + 1)"
    and s1: "2 ^ 52 * t \<le> v * 2 ^ k1"
    using double_of_quotient_near [OF v t]
    by (simp_all add: x_def m1_def k1_def double_div_def)
  have "2 ^ 52 * t \<le> t * 2 ^ k1"
    using s1 vt by (meson le_trans mult_le_mono1)
  then have "(2::nat) ^ 52 \<le> 2 ^ k1" using t by simp
  then have k1: "52 \<le> k1" using power_le_imp_le_exp [of "2::nat" 52 k1] by simp
  then have "(2::real) ^ 53 \<le> 2 ^ (k1 + 1)"
    using power_increasing [of 53 "k1 + 1" "2::real"] by simp
  then have "1 / (2::real) ^ (k1 + 1) \<le> 1 / 2 ^ 53"
    by (simp add: frac_le)
  with q1 have "\<bar>x - real v / real t\<bar> \<le> 1 / 2 ^ 53" by linarith
  then have e1: "\<bar>x - z\<bar> \<le> 1 / 9007199254740992" by (simp add: z_def)
  have ratio: "z \<le> 1" "1 / 4294967296 < z"
  proof -
    show "z \<le> 1" using tr by (simp add: z_def)
    have "1 \<le> real v" using v by simp
    then have "1 / real t \<le> real v / real t" using tr by (simp add: divide_right_mono)
    then have a: "1 / real t \<le> z" by (simp only: z_def)
    have "1 / 2 ^ 32 < 1 / real t" using tr by (simp add: frac_less2)
    then have b: "1 / 4294967296 < 1 / real t" by simp
    from a b show "1 / 4294967296 < z" by (rule less_le_trans [rotated])
  qed
  from e1 ratio have xb: "0 < x" "x \<le> 1 + 1 / 9007199254740992"
    by linarith+
  have m1: "0 < m1"
  proof (rule ccontr)
    assume "\<not> 0 < m1"
    then have "x = 0" by (simp add: x_def)
    with xb show False by simp
  qed
  \<comment> \<open>the product\<close>
  have dt: "double_times_100 (double_div v t) = double_of_quotient (m1 * 100) (2 ^ k1)"
    by (simp add: double_times_100_def m1_def k1_def)
  have q2: "\<bar>p - real (m1 * 100) / real ((2::nat) ^ k1)\<bar> \<le> 1 / 2 ^ (k2 + 1)"
    and s2: "2 ^ 52 * 2 ^ k1 \<le> m1 * 100 * 2 ^ k2"
    using double_of_quotient_near [of "m1 * 100" "2 ^ k1"] m1
    by (simp_all add: p_def m2_def k2_def dt)
  have prod: "real (m1 * 100) / real ((2::nat) ^ k1) = 100 * x"
    by (simp add: x_def)
  have "real ((2::nat) ^ 52 * 2 ^ k1) \<le> real (m1 * 100 * 2 ^ k2)"
    using s2 by (simp only: of_nat_le_iff)
  then have "(2::real) ^ 52 * 2 ^ k1 \<le> real m1 * 100 * 2 ^ k2" by simp
  then have "(2::real) ^ 52 \<le> (real m1 * 100 * 2 ^ k2) / 2 ^ k1"
    by (simp add: field_simps)
  also have "\<dots> = 100 * x * 2 ^ k2" by (simp add: x_def)
  also have "\<dots> < 128 * 2 ^ k2"
  proof -
    have "100 * x < 128" using xb by simp
    then show ?thesis by simp
  qed
  finally have "(2::real) ^ 52 < 2 ^ (k2 + 7)" by (simp add: power_add)
  then have "52 < k2 + 7" using power_less_imp_less_exp [of "2::real" 52 "k2 + 7"] by simp
  then have "46 \<le> k2" by simp
  then have "(2::real) ^ 47 \<le> 2 ^ (k2 + 1)"
    using power_increasing [of 47 "k2 + 1" "2::real"] by simp
  then have "1 / (2::real) ^ (k2 + 1) \<le> 1 / 2 ^ 47" by (simp add: frac_le)
  with q2 prod have "\<bar>p - 100 * x\<bar> \<le> 1 / 2 ^ 47" by linarith
  then have e2: "\<bar>p - 100 * x\<bar> \<le> 1 / 140737488355328" by simp
  \<comment> \<open>the rounding\<close>
  have r: "r = math_round (m2, k2)"
    using t by (simp add: r_def tasaExito_of_def m2_def k2_def)
  have r1: "real_of_int r \<le> p + 1 / 2" and r2: "p + 1 / 2 < real_of_int r + 1"
    unfolding r p_def by (rule math_round_near)+
  have yz: "y = 100 * z" by (simp add: y_def z_def)
  have e: "\<bar>p - y\<bar> \<le> 41 / 2251799813685248"
    using e1 e2 unfolding yz by linarith
  define D where "D = r * int t - 100 * int v"
  have Dy: "real_of_int D = (real_of_int r - y) * real t"
    using tr by (simp add: D_def y_def field_simps)
  have up: "real_of_int r - y \<le> 1 / 2 + 41 / 2251799813685248"
    and lo: "- (1 / 2 + 41 / 2251799813685248) < real_of_int r - y"
    using r1 r2 e by linarith+
  have tr': "real t < 4294967296" using tr by simp
  have "real_of_int D \<le> (1 / 2 + 41 / 2251799813685248) * real t"
    unfolding Dy using up tr by (intro mult_right_mono) simp_all
  then have "real_of_int D \<le> real t / 2 + 41 * real t / 2251799813685248"
    by (simp add: algebra_simps)
  then have "2 * real_of_int D < real t + 1" using tr' by linarith
  then have "real_of_int (2 * D) < real_of_int (int t + 1)" by simp
  then have "2 * D < int t + 1" by (simp only: of_int_less_iff)
  then have hi: "2 * D \<le> int t" by simp
  have "- (1 / 2 + 41 / 2251799813685248) * real t \<le> real_of_int D"
    unfolding Dy using lo tr by (intro mult_right_mono) simp_all
  then have "- (real t / 2 + 41 * real t / 2251799813685248) \<le> real_of_int D"
    by (simp add: algebra_simps)
  then have "- (real t + 1) < 2 * real_of_int D" using tr' by linarith
  then have "real_of_int (- (int t + 1)) < real_of_int (2 * D)" by simp
  then have "- (int t + 1) < 2 * D" by (simp only: of_int_less_iff)
  then have lo': "- int t \<le> 2 * D" by simp
  from hi lo' have "real_of_int (2 * D) \<le> real_of_int (int t)"
    "real_of_int (- int t) \<le> real_of_int (2 * D)"
    by (simp_all only: of_int_le_iff)
  then have "2 * real_of_int D \<le> real t" "- real t \<le> 2 * real_of_int D" by simp_all
  then have "\<bar>real_of_int D\<bar> \<le> real t / 2" by linarith
  then have "\<bar>(real_of_int r - y) * real t\<bar> \<le> real t / 2" by (simp add: Dy)
  then have "\<bar>real_of_int r - y\<bar> * real t \<le> (1 / 2) * real t"
    using tr by (simp add: abs_mult)
  then have "\<bar>real_of_int r - y\<bar> \<le> 1 / 2"
    using tr by (simp only: mult_le_cancel_right_pos)
  then show ?thesis by (simp add: r_def y_def)
qed

lemma step_one_bucket:
  "(\<exists>d. fst (reconciliar_step env ((ds, vs, es), w) l) = (ds @ [d], vs, es))
   \<or> (\<exists>v. fst (reconciliar_step env ((ds, vs, es), w) l) = (ds, vs @ [v], es))
   \<or> (\<exists>e. fst (reconciliar_step env ((ds, vs, es), w) l) = (ds, vs, es @ [e]))"
  by (cases "buscarEnBiller env l w")
     (auto simp: reconciliar_step.simps Let_def split: lookup_outcome.splits option.splits)

lemma scenario_counts:
  "list_all (\<lambda>i. 0 < i \<and> i < 2 ^ 52) ids \<Longrightarrow>
   length (fst (snd (fst (foldl (reconciliar_step (scenario_env n)) ((ds, vs, es), w)
      (map scenario_local ids))))) = length vs + length (filter (\<lambda>i. i \<le> n) ids)"
proof (induction ids arbitrary: ds vs es w)
  case Nil
  then show ?case by simp
next
  case (Cons i ids)
  then have i: "0 < i" "i < 2 ^ 52" and rest: "list_all (\<lambda>i. 0 < i \<and> i < 2 ^ 52) ids"
    by simp_all
  show ?case
    using Cons.IH [OF rest] i by (simp add: scenario_step [OF i])
qed

lemma scenario_40:
  "n_total (resumen (fst (reconciliar (scenario_env 23) ''r2'' (map scenario_local [1..40]) 0))) = 40"
  "n_verificados (resumen (fst (reconciliar (scenario_env 23) ''r2'' (map scenario_local [1..40]) 0))) = 23"
  "tasaExito (resumen (fst (reconciliar (scenario_env 23) ''r2'' (map scenario_local [1..40]) 0))) = 57"
proof -
  have pos: "list_all (\<lambda>i. 0 < i \<and> i < 2 ^ 52) [1..40::int]" by (simp add: list_all_iff)
  have len: "length (map scenario_local [1..40]) = 40" by simp
  have ver: "length (fst (snd (fst (foldl (reconciliar_step (scenario_env 23)) (([], [], []), 0)
      (map scenario_local [1..40]))))) = 23"
    unfolding scenario_counts [OF pos] by (simp add: upto_rec1)
  have t: "tasaExito_of 23 40 = 57"
    by (simp add: tasaExito_of_def math_round_def double_times_100_def double_div_def
          double_of_quotient_def round_half_even_def find_shift.simps Let_def)
  show "n_total (resumen (fst (reconciliar (scenario_env 23) ''r2'' (map scenario_local [1..40]) 0))) = 40"
    unfolding reconciliar_fields(1) by (rule len)
  show "n_verificados (resumen (fst (reconciliar (scenario_env 23) ''r2'' (map scenario_local [1..40]) 0))) = 23"
    unfolding reconciliar_fields(2) by (rule ver)
  show "tasaExito (resumen (fst (reconciliar (scenario_env 23) ''r2'' (map scenario_local [1..40]) 0))) = 57"
    unfolding reconciliar_fields(8) ver len by (rule t)
qed

text \<open>
  C10, as stated, fails in its last part. The rate is computed in double precision as
  \<open>Math.round((verificados.length / total) * 100)\<close>: for 23 verified records out of 40
  the quotient \<open>23 / 40\<close> rounds to a double just below 0.575, the product is
  57.49999999999999 and the reported rate is 57, while \<open>100 * 23 / 40 = 57.5\<close> rounds to 58.
\<close>

theorem recon_summary_counterexample:
  "n_total (resumen (fst (reconciliar (scenario_env 23) ''r2'' (map scenario_local [1..40]) 0))) = 40
   \<and> n_verificados (resumen (fst (reconciliar (scenario_env 23) ''r2'' (map scenario_local [1..40]) 0))) = 23
   \<and> tasaExito (resumen (fst (reconciliar (scenario_env 23) ''r2'' (map scenario_local [1..40]) 0))) = 57
   \<and> round (100 * 23 / 40 :: real) = 58
   \<and> tasaExito (resumen (fst (reconciliar (scenario_env 23) ''r2'' (map scenario_local [1..40]) 0)))
       \<noteq> round (100 * real (n_verificados (resumen (fst (reconciliar (scenario_env 23) ''r2''
                   (map scenario_local [1..40]) 0))))
                / real (n_total (resumen (fst (reconciliar (scenario_env 23) ''r2''
                   (map scenario_local [1..40]) 0)))))"
proof -
  have r: "round (100 * 23 / 40 :: real) = 58"
    by (simp add: round_def floor_eq_iff)
  show ?thesis unfolding scenario_40 using r by simp
qed

text \<open>
  C10, amended. Whatever the lookups do, every iteration adds exactly one element to
  exactly one of \<open>discrepancias\<close>, \<open>verificados\<close> and \<open>errores\<close>, so the summary satisfies
  total = verified + discrepancies + errors, with the counts being the lengths of the
  lists (the report itself carries at most the first ten verified records). The success
  rate is 100 for an empty input; otherwise it is \<open>Math.round\<close> of the double-precision
  product \<open>(verified / total) * 100\<close>, which for every array length (below \<open>2 ^ 32\<close>) is an
  integer within one half of \<open>100 * verified / total\<close>: it equals
  \<open>round (100 * verified / total)\<close>, except that on an exact tie (a value ending in .5) it
  may be the integer below.
\<close>

theorem recon_summary_amended:
  "n_total (resumen (fst (reconciliar env rid ls w0)))
     = n_verificados (resumen (fst (reconciliar env rid ls w0)))
       + n_discrepancias (resumen (fst (reconciliar env rid ls w0)))
       + n_errores (resumen (fst (reconciliar env rid ls w0)))
   \<and> n_total (resumen (fst (reconciliar env rid ls w0))) = length ls
   \<and> n_discrepancias (resumen (fst (reconciliar env rid ls w0)))
       = length (discrepancias (fst (reconciliar env rid ls w0)))
   \<and> n_errores (resumen (fst (reconciliar env rid ls w0)))
       = length (errores (fst (reconciliar env rid ls w0)))
   \<and> length (verificados (fst (reconciliar env rid ls w0)))
       = min (n_verificados (resumen (fst (reconciliar env rid ls w0)))) 10
   \<and> ((\<exists>d. fst (reconciliar_step env ((ds, vs, es), w) l) = (ds @ [d], vs, es))
      \<or> (\<exists>v. fst (reconciliar_step env ((ds, vs, es), w) l) = (ds, vs @ [v], es))
      \<or> (\<exists>e. fst (reconciliar_step env ((ds, vs, es), w) l) = (ds, vs, es @ [e])))
   \<and> tasaExito (resumen (fst (reconciliar env rid ls w0)))
       = tasaExito_of (n_verificados (resumen (fst (reconciliar env rid ls w0))))
           (n_total (resumen (fst (reconciliar env rid ls w0))))
   \<and> (ls = [] \<longrightarrow> tasaExito (resumen (fst (reconciliar env rid ls w0))) = 100)
   \<and> (ls \<noteq> [] \<and> length ls < 2 ^ 32 \<longrightarrow>
        \<bar>real_of_int (tasaExito (resumen (fst (reconciliar env rid ls w0))))
           - 100 * real (n_verificados (resumen (fst (reconciliar env rid ls w0))))
               / real (n_total (resumen (fst (reconciliar env rid ls w0))))\<bar> \<le> 1 / 2
        \<and> (tasaExito (resumen (fst (reconciliar env rid ls w0)))
             = round (100 * real (n_verificados (resumen (fst (reconciliar env rid ls w0))))
                 / real (n_total (resumen (fst (reconciliar env rid ls w0)))))
           \<or> tasaExito (resumen (fst (reconciliar env rid ls w0)))
               = round (100 * real (n_verificados (resumen (fst (reconciliar env rid ls w0))))
                   / real (n_total (resumen (fst (reconciliar env rid ls w0))))) - 1
             \<and> real_of_int (round (100 * real (n_verificados (resumen (fst (reconciliar env rid ls w0))))
                   / real (n_total (resumen (fst (reconciliar env rid ls w0))))))
                 = 100 * real (n_verificados (resumen (fst (reconciliar env rid ls w0))))
                     / real (n_total (resumen (fst (reconciliar env rid ls w0)))) + 1 / 2))"
proof -
  let ?R = "fst (reconciliar env rid ls w0)"
  let ?acc = "fst (foldl (reconciliar_step env) (([], [], []), w0) ls)"
  have count: "length (fst ?acc) + length (fst (snd ?acc)) + length (snd (snd ?acc)) = length ls"
    using run_count [of env "(([], [], []), w0)" ls] by simp
  have sum: "n_total (resumen ?R) = n_verificados (resumen ?R) + n_discrepancias (resumen ?R)
      + n_errores (resumen ?R)"
    unfolding reconciliar_fields using count by simp
  have lens: "n_total (resumen ?R) = length ls"
    "n_discrepancias (resumen ?R) = length (discrepancias ?R)"
    "n_errores (resumen ?R) = length (errores ?R)"
    "length (verificados ?R) = min (n_verificados (resumen ?R)) 10"
    "tasaExito (resumen ?R) = tasaExito_of (n_verificados (resumen ?R)) (n_total (resumen ?R))"
    by (simp_all add: reconciliar_fields)
  have empty: "tasaExito (resumen ?R) = 100" if "ls = []"
    using that by (simp add: reconciliar_fields tasaExito_of_def)
  have near: "\<bar>real_of_int (tasaExito (resumen ?R))
           - 100 * real (n_verificados (resumen ?R)) / real (n_total (resumen ?R))\<bar> \<le> 1 / 2"
    if h: "ls \<noteq> [] \<and> length ls < 2 ^ 32"
  proof -
    have "0 < n_total (resumen ?R)"
      using h by (simp add: lens(1))
    moreover have "n_verificados (resumen ?R) \<le> n_total (resumen ?R)"
      using sum by simp
    moreover have "n_total (resumen ?R) < 2 ^ 32"
      using h by (simp add: lens(1))
    ultimately show ?thesis
      unfolding lens(5) by (rule tasaExito_of_near)
  qed
  have tie: "tasaExito (resumen ?R)
        = round (100 * real (n_verificados (resumen ?R)) / real (n_total (resumen ?R)))
      \<or> tasaExito (resumen ?R)
          = round (100 * real (n_verificados (resumen ?R)) / real (n_total (resumen ?R))) - 1
        \<and> real_of_int (round (100 * real (n_verificados (resumen ?R)) / real (n_total (resumen ?R))))
            = 100 * real (n_verificados (resumen ?R)) / real (n_total (resumen ?R)) + 1 / 2"
    if h: "ls \<noteq> [] \<and> length ls < 2 ^ 32"
  proof -
    define y where "y = 100 * real (n_verificados (resumen ?R)) / real (n_total (resumen ?R))"
    define r where "r = tasaExito (resumen ?R)"
    have n: "\<bar>real_of_int r - y\<bar> \<le> 1 / 2"
      using near [OF h] by (simp add: y_def r_def)
    have le: "real_of_int (round y) \<le> y + 1 / 2" by (rule of_int_round_le)
    have gt: "y - 1 / 2 < real_of_int (round y)" by (rule of_int_round_gt)
    have n1: "real_of_int r \<le> y + 1 / 2" and n2: "y - 1 / 2 \<le> real_of_int r"
      using n by linarith+
    have "real_of_int r < real_of_int (round y) + 1" using n1 gt by linarith
    then have "real_of_int r < real_of_int (round y + 1)" by simp
    then have "r < round y + 1" by (simp only: of_int_less_iff)
    then have up: "r \<le> round y" by simp
    have "real_of_int (round y) - 1 \<le> real_of_int r" using n2 le by linarith
    then have "real_of_int (round y - 1) \<le> real_of_int r" by simp
    then have lo: "round y - 1 \<le> r" by (simp only: of_int_le_iff)
    show ?thesis
    proof (cases "r = round y")
      case True
      then show ?thesis by (simp add: y_def r_def)
    next
      case False
      with up lo have eq: "r = round y - 1" by simp
      then have "real_of_int r = real_of_int (round y) - 1" by simp
      with n2 have "real_of_int (round y) \<ge> y + 1 / 2" by linarith
      with le have "real_of_int (round y) = y + 1 / 2" by linarith
      with eq show ?thesis by (simp add: y_def r_def)
    qed
  qed
  from sum lens empty near tie step_one_bucket [of env ds vs es w l] show ?thesis by blast
qed

theorem recon_summary_amended_witness:
  "n_total (resumen (fst (reconciliar (scenario_env 23) ''r2'' (map scenario_local [1..40]) 0)))
     = 23 + n_discrepancias (resumen (fst (reconciliar (scenario_env 23) ''r2'' (map scenario_local [1..40]) 0)))
       + n_errores (resumen (fst (reconciliar (scenario_env 23) ''r2'' (map scenario_local [1..40]) 0)))
   \<and> \<bar>real_of_int (tasaExito (resumen (fst (reconciliar (scenario_env 23) ''r2''
         (map scenario_local [1..40]) 0)))) - 100 * 23 / 40\<bar> \<le> 1 / 2
   \<and> tasaExito (resumen (fst (reconciliar (scenario_env 23) ''r2'' [] 0))) = 100"
proof -
  note run = recon_summary_amended [where env = "scenario_env 23" and rid = "''r2''"
      and ls = "map scenario_local [1..40]" and ?w0.0 = 0 and ds = "[]" and vs = "[]" and es = "[]"
      and w = 0 and l = "scenario_local 1"]
  note none = recon_summary_amended [where env = "scenario_env 23" and rid = "''r2''"
      and ls = "[]" and ?w0.0 = 0 and ds = "[]" and vs = "[]" and es = "[]"
      and w = 0 and l = "scenario_local 1"]
  have 1: "n_total (resumen (fst (reconciliar (scenario_env 23) ''r2'' (map scenario_local [1..40]) 0)))
     = 23 + n_discrepancias (resumen (fst (reconciliar (scenario_env 23) ''r2'' (map scenario_local [1..40]) 0)))
       + n_errores (resumen (fst (reconciliar (scenario_env 23) ''r2'' (map scenario_local [1..40]) 0)))"
    using run by (simp add: scenario_40(2))
  have 2: "\<bar>real_of_int (tasaExito (resumen (fst (reconciliar (scenario_env 23) ''r2''
         (map scenario_local [1..40]) 0)))) - 100 * 23 / 40\<bar> \<le> 1 / 2"
    using run by (simp add: scenario_40)
  have 3: "tasaExito (resumen (fst (reconciliar (scenario_env 23) ''r2'' [] 0))) = 100"
    using none by blast
  from 1 2 3 show ?thesis by simp
qed

end
